theory Spec2Isabelle
  imports Main "HOL-Library.Word"
begin

unbundle bit_operations_syntax

section \<open>Byte buffers, panics and the little-endian codec\<close>

text \<open>
  A \<open>BNode\<close> of the source is a Go byte slice. It is modelled as the list of its bytes;
  the capacity of the slice is taken to be its length, which is what \<open>make([]byte, n)\<close>
  produces. The mutators of the source write into the slice they are handed; here they
  return the updated buffer. A panic (a failed \<open>utils.Assert\<close>, or an index or slice
  bound out of range) is a value of type \<open>error\<close>.
\<close>

type_synonym byte = "8 word"
type_synonym BNode = "byte list"

datatype error = AssertionFailed | OutOfRange

definition andThen :: "error + 'a \<Rightarrow> ('a \<Rightarrow> error + 'b) \<Rightarrow> error + 'b" where
  "andThen m f = (case m of Inl e \<Rightarrow> Inl e | Inr x \<Rightarrow> f x)"

text \<open>Only the success of the first step reaches the second.\<close>

lemma andThen_cong [fundef_cong]:
  "m = m' \<Longrightarrow> (\<And>x. m' = Inr x \<Longrightarrow> f x = f' x) \<Longrightarrow> andThen m f = andThen m' f'"
  by (auto simp: andThen_def split: sum.splits)

text \<open>\<open>utils.Assert(condition)\<close>: panics when the condition is false.\<close>

definition Assert :: "bool \<Rightarrow> error + unit" where
  "Assert condition = (if \<not> condition then Inl AssertionFailed else Inr ())"

abbreviation (input) BNODE_NODE :: "16 word" where "BNODE_NODE \<equiv> 1"
abbreviation (input) BNODE_LEAF :: "16 word" where "BNODE_LEAF \<equiv> 2"
abbreviation (input) BTREE_PAGE_SIZE :: nat where "BTREE_PAGE_SIZE \<equiv> 4096"
abbreviation (input) BTREE_MAX_KEY_SIZE :: nat where "BTREE_MAX_KEY_SIZE \<equiv> 1000"
abbreviation (input) BTREE_MAX_VAL_SIZE :: nat where "BTREE_MAX_VAL_SIZE \<equiv> 3000"

text \<open>The bytes \<open>bs\<close> stored over positions \<open>pos, pos + 1, ...\<close> of a buffer.\<close>

definition write_at :: "byte list \<Rightarrow> nat \<Rightarrow> byte list \<Rightarrow> byte list" where
  "write_at buf pos bs = take pos buf @ bs @ drop (pos + length bs) buf"

definition le16 :: "16 word \<Rightarrow> byte list" where
  "le16 v = [ucast v, ucast (drop_bit 8 v)]"

definition le64 :: "64 word \<Rightarrow> byte list" where
  "le64 v = [ucast v, ucast (drop_bit 8 v), ucast (drop_bit 16 v), ucast (drop_bit 24 v),
             ucast (drop_bit 32 v), ucast (drop_bit 40 v), ucast (drop_bit 48 v),
             ucast (drop_bit 56 v)]"

text \<open>\<open>binary.LittleEndian.Uint16(b)\<close> and \<open>Uint64(b)\<close>: they index \<open>b[1]\<close>
  (\<open>b[7]\<close>) first, so a shorter slice panics.\<close>

definition Uint16 :: "byte list \<Rightarrow> error + 16 word" where
  "Uint16 b = (if length b < 2 then Inl OutOfRange
               else Inr (ucast (b ! 0) OR push_bit 8 (ucast (b ! 1))))"

definition Uint64 :: "byte list \<Rightarrow> error + 64 word" where
  "Uint64 b = (if length b < 8 then Inl OutOfRange
               else Inr (ucast (b ! 0) OR push_bit 8 (ucast (b ! 1))
                      OR push_bit 16 (ucast (b ! 2)) OR push_bit 24 (ucast (b ! 3))
                      OR push_bit 32 (ucast (b ! 4)) OR push_bit 40 (ucast (b ! 5))
                      OR push_bit 48 (ucast (b ! 6)) OR push_bit 56 (ucast (b ! 7))))"

text \<open>\<open>node[lo:hi]\<close> and \<open>node[pos:]\<close>: a bound beyond the slice panics.\<close>

definition slice :: "byte list \<Rightarrow> nat \<Rightarrow> nat \<Rightarrow> error + byte list" where
  "slice node lo hi = (if hi \<le> length node \<and> lo \<le> hi then Inr (take (hi - lo) (drop lo node))
                       else Inl OutOfRange)"

definition slice_from :: "byte list \<Rightarrow> nat \<Rightarrow> error + byte list" where
  "slice_from node pos = (if pos \<le> length node then Inr (drop pos node) else Inl OutOfRange)"

text \<open>\<open>PutUint16(node[pos:], v)\<close>, \<open>PutUint64(node[pos:], v)\<close> and
  \<open>copy(node[pos:], src)\<close>, each writing through to \<open>node\<close>. \<open>copy\<close> stores as many
  bytes as fit and never panics by itself.\<close>

definition PutUint16_at :: "BNode \<Rightarrow> nat \<Rightarrow> 16 word \<Rightarrow> error + BNode" where
  "PutUint16_at node pos v =
     andThen (slice_from node pos) (\<lambda>b.
       if length b < 2 then Inl OutOfRange else Inr (write_at node pos (le16 v)))"

definition PutUint64_at :: "BNode \<Rightarrow> nat \<Rightarrow> 64 word \<Rightarrow> error + BNode" where
  "PutUint64_at node pos v =
     andThen (slice_from node pos) (\<lambda>b.
       if length b < 8 then Inl OutOfRange else Inr (write_at node pos (le64 v)))"

definition copy_at :: "BNode \<Rightarrow> nat \<Rightarrow> byte list \<Rightarrow> error + BNode" where
  "copy_at node pos src =
     andThen (slice_from node pos) (\<lambda>b. Inr (write_at node pos (take (length b) src)))"

section \<open>Node codec (bnode.go)\<close>

definition btype :: "BNode \<Rightarrow> error + 16 word" where
  "btype node = andThen (slice node 0 2) Uint16"

definition nkeys :: "BNode \<Rightarrow> error + 16 word" where
  "nkeys node = andThen (slice node 2 4) Uint16"

definition setHeader :: "BNode \<Rightarrow> 16 word \<Rightarrow> 16 word \<Rightarrow> error + BNode" where
  "setHeader node bt n =
     andThen (slice node 0 2) (\<lambda>_.
     andThen (PutUint16_at node 0 bt) (\<lambda>node1.
     andThen (slice node1 2 4) (\<lambda>_.
     PutUint16_at node1 2 n)))"

definition getPtr :: "BNode \<Rightarrow> 16 word \<Rightarrow> error + 64 word" where
  "getPtr node idx =
     andThen (nkeys node) (\<lambda>n.
     andThen (Assert (idx < n)) (\<lambda>_.
     let pos = 4 + 8 * idx in
     andThen (slice_from node (unat pos)) Uint64))"

definition setPtr :: "BNode \<Rightarrow> 16 word \<Rightarrow> 64 word \<Rightarrow> error + BNode" where
  "setPtr node idx val =
     andThen (nkeys node) (\<lambda>n.
     andThen (Assert (idx < n)) (\<lambda>_.
     let pos = 4 + 8 * idx in
     PutUint64_at node (unat pos) val))"

definition getOffset :: "BNode \<Rightarrow> 16 word \<Rightarrow> error + 16 word" where
  "getOffset node idx =
     (if idx = 0 then Inr 0
      else andThen (nkeys node) (\<lambda>n.
           let pos = 4 + 8 * n + 2 * (idx - 1) in
           andThen (slice_from node (unat pos)) Uint16))"

definition setOffset :: "BNode \<Rightarrow> 16 word \<Rightarrow> 16 word \<Rightarrow> error + BNode" where
  "setOffset node idx val =
     andThen (nkeys node) (\<lambda>n.
     andThen (Assert (idx \<le> n)) (\<lambda>_.
     let pos = 4 + 8 * n + 2 * (idx - 1) in
     PutUint16_at node (unat pos) val))"

definition kvPos :: "BNode \<Rightarrow> 16 word \<Rightarrow> error + 16 word" where
  "kvPos node idx =
     andThen (nkeys node) (\<lambda>n.
     andThen (Assert (idx \<le> n)) (\<lambda>_.
     andThen (getOffset node idx) (\<lambda>off.
     Inr (4 + 8 * n + 2 * n + off))))"

definition getKey :: "BNode \<Rightarrow> 16 word \<Rightarrow> error + byte list" where
  "getKey node idx =
     andThen (nkeys node) (\<lambda>n.
     andThen (Assert (idx < n)) (\<lambda>_.
     andThen (kvPos node idx) (\<lambda>pos.
     andThen (andThen (slice_from node (unat pos)) Uint16) (\<lambda>klen.
     andThen (slice_from node (unat (pos + 4))) (\<lambda>b.
     slice b 0 (unat klen))))))"

definition getVal :: "BNode \<Rightarrow> 16 word \<Rightarrow> error + byte list" where
  "getVal node idx =
     andThen (nkeys node) (\<lambda>n.
     andThen (Assert (idx < n)) (\<lambda>_.
     andThen (kvPos node idx) (\<lambda>pos.
     andThen (andThen (slice_from node (unat (pos + 0))) Uint16) (\<lambda>klen.
     andThen (andThen (slice_from node (unat (pos + 2))) Uint16) (\<lambda>vlen.
     andThen (slice_from node (unat (pos + 4 + klen))) (\<lambda>b.
     slice b 0 (unat vlen)))))))"

definition nbytes :: "BNode \<Rightarrow> error + 16 word" where
  "nbytes node = andThen (nkeys node) (\<lambda>n. kvPos node n)"

section \<open>Node mutators (bnode.go)\<close>

definition nodeAppendKV ::
  "BNode \<Rightarrow> 16 word \<Rightarrow> 64 word \<Rightarrow> byte list \<Rightarrow> byte list \<Rightarrow> error + BNode" where
  "nodeAppendKV new idx ptr key val =
     andThen (setPtr new idx ptr) (\<lambda>new1.
     andThen (kvPos new1 idx) (\<lambda>pos.
     andThen (PutUint16_at new1 (unat (pos + 0)) (of_nat (length key))) (\<lambda>new2.
     andThen (PutUint16_at new2 (unat (pos + 2)) (of_nat (length val))) (\<lambda>new3.
     andThen (copy_at new3 (unat (pos + 4)) key) (\<lambda>new4.
     andThen (copy_at new4 (unat (pos + 4 + of_nat (length key))) val) (\<lambda>new5.
     andThen (getOffset new5 idx) (\<lambda>off.
     setOffset new5 (idx + 1) (off + 4 + of_nat (length key + length val)))))))))"

text \<open>The loop of \<open>nodeAppendRange\<close>, from the counter \<open>i\<close> on.\<close>

function appendRange_loop ::
  "BNode \<Rightarrow> BNode \<Rightarrow> 16 word \<Rightarrow> 16 word \<Rightarrow> 16 word \<Rightarrow> 16 word \<Rightarrow> error + BNode" where
  "appendRange_loop new old dstNew srcOld n i =
     (if i < n then
        let dst = dstNew + i; src = srcOld + i in
        andThen (getPtr old src) (\<lambda>p.
        andThen (getKey old src) (\<lambda>k.
        andThen (getVal old src) (\<lambda>v.
        andThen (nodeAppendKV new dst p k v) (\<lambda>new'.
        appendRange_loop new' old dstNew srcOld n (i + 1)))))
      else Inr new)"
  by pat_completeness auto
termination
proof (relation "measure (\<lambda>(new, old, dstNew, srcOld, n, i). unat n - unat i)")
  show "wf (measure (\<lambda>(new, old, dstNew, srcOld, n, i). unat n - unat i))"
    by simp
next
  fix new old :: BNode and dstNew srcOld n i :: "16 word"
    and x xa :: "16 word" and xb :: "64 word" and xc xd :: "byte list" and xe :: BNode
  assume "i < n"
  then have "unat i < unat n"
    by (simp add: word_less_nat_alt)
  moreover have "unat i + 1 < 2 ^ 16"
    using \<open>unat i < unat n\<close> unsigned_less [of n, where 'a = nat] by simp
  then have "unat (i + 1) = unat i + 1"
    by (simp add: unat_word_ariths)
  ultimately show "((xe, old, dstNew, srcOld, n, i + 1), (new, old, dstNew, srcOld, n, i))
      \<in> measure (\<lambda>(new, old, dstNew, srcOld, n, i). unat n - unat i)"
    by simp
qed

definition nodeAppendRange ::
  "BNode \<Rightarrow> BNode \<Rightarrow> 16 word \<Rightarrow> 16 word \<Rightarrow> 16 word \<Rightarrow> error + BNode" where
  "nodeAppendRange new old dstNew srcOld n = appendRange_loop new old dstNew srcOld n 0"

definition leafInsert ::
  "BNode \<Rightarrow> BNode \<Rightarrow> 16 word \<Rightarrow> byte list \<Rightarrow> byte list \<Rightarrow> error + BNode" where
  "leafInsert new old idx key val =
     andThen (nkeys old) (\<lambda>n.
     andThen (setHeader new BNODE_LEAF (n + 1)) (\<lambda>new1.
     andThen (nodeAppendRange new1 old 0 0 idx) (\<lambda>new2.
     andThen (nodeAppendKV new2 idx 0 key val) (\<lambda>new3.
     andThen (nkeys old) (\<lambda>n'.
     nodeAppendRange new3 old (idx + 1) idx (n' - idx))))))"

definition leafUpdate ::
  "BNode \<Rightarrow> BNode \<Rightarrow> 16 word \<Rightarrow> byte list \<Rightarrow> byte list \<Rightarrow> error + BNode" where
  "leafUpdate new old idx key val =
     andThen (nkeys old) (\<lambda>n.
     andThen (setHeader new BNODE_LEAF n) (\<lambda>new1.
     andThen (nodeAppendRange new1 old 0 0 idx) (\<lambda>new2.
     andThen (nodeAppendKV new2 idx 0 key val) (\<lambda>new3.
     andThen (nkeys old) (\<lambda>n'.
     nodeAppendRange new3 old (idx + 1) (idx + 1) (n' - (idx + 1)))))))"

section \<open>Search (bnode.go)\<close>

text \<open>\<open>bytes.Compare\<close>: lexicographic order on byte strings, bytes compared unsigned.\<close>

fun bytes_Compare :: "byte list \<Rightarrow> byte list \<Rightarrow> int" where
  "bytes_Compare [] [] = 0"
| "bytes_Compare [] (y # ys) = - 1"
| "bytes_Compare (x # xs) [] = 1"
| "bytes_Compare (x # xs) (y # ys) =
     (if x < y then - 1 else if y < x then 1 else bytes_Compare xs ys)"

text \<open>How the loop of \<open>nodeLookupLE\<close> is left: by \<open>return mid\<close>, or by falling out of it
  (the loop condition fails, or \<open>break\<close>) with the current \<open>hi\<close>.\<close>

datatype loop_exit = Return "16 word" | Fallthrough "16 word"

function lookup_loop ::
  "BNode \<Rightarrow> byte list \<Rightarrow> 16 word \<Rightarrow> 16 word \<Rightarrow> error + loop_exit" where
  "lookup_loop node key lo hi =
     (if lo \<le> hi then
        let mid = lo + (hi - lo) div 2 in
        andThen (getKey node mid) (\<lambda>k.
        let cmp = bytes_Compare k key in
        if cmp = 0 then Inr (Return mid)
        else if cmp < 0 then lookup_loop node key (mid + 1) hi
        else if mid = 0 then Inr (Fallthrough hi)
        else lookup_loop node key lo (mid - 1))
      else Inr (Fallthrough hi))"
  by pat_completeness auto
termination
proof (relation "measure (\<lambda>(node, key, lo, hi). unat hi + 1 - unat lo)")
  show "wf (measure (\<lambda>(node, key, lo, hi). unat hi + 1 - unat lo))" by simp
next
  fix node key :: "byte list" and lo hi x :: "16 word" and xa :: "byte list" and xb :: int
  assume le: "lo \<le> hi" and x: "x = lo + (hi - lo) div 2" and g: "getKey node x = Inr xa"
  have mid: "unat x = unat lo + (unat hi - unat lo) div 2"
    unfolding x using le by unat_arith
  from g obtain n where "x < n"
    by (auto simp: getKey_def andThen_def Assert_def split: sum.splits if_splits)
  then have "unat x + 1 < 2 ^ 16"
    using unsigned_less [of n, where 'a = nat] by (simp add: word_less_nat_alt)
  then have "unat (x + 1) = unat x + 1"
    by (simp add: unat_word_ariths)
  with mid le show "((node, key, x + 1, hi), (node, key, lo, hi))
      \<in> measure (\<lambda>(node, key, lo, hi). unat hi + 1 - unat lo)"
    by (simp add: word_le_nat_alt)
next
  fix node key :: "byte list" and lo hi x :: "16 word" and xa :: "byte list" and xb :: int
  assume le: "lo \<le> hi" and x: "x = lo + (hi - lo) div 2" and nz: "x \<noteq> 0"
  have mid: "unat x = unat lo + (unat hi - unat lo) div 2"
    unfolding x using le by unat_arith
  from nz have "unat (x - 1) = unat x - 1"
    by (simp add: unat_minus_one)
  moreover from nz have "0 < unat x"
    by (simp add: unat_gt_0)
  ultimately show "((node, key, lo, x - 1), (node, key, lo, hi))
      \<in> measure (\<lambda>(node, key, lo, hi). unat hi + 1 - unat lo)"
    using mid le by (simp add: word_le_nat_alt)
qed

definition nodeLookupLE :: "BNode \<Rightarrow> byte list \<Rightarrow> error + 16 word" where
  "nodeLookupLE node key =
     andThen (nkeys node) (\<lambda>n.
     if n = 0 then Inr 0
     else andThen (lookup_loop node key 0 (n - 1)) (\<lambda>r.
          case r of
            Return mid \<Rightarrow> Inr mid
          | Fallthrough hi \<Rightarrow> if hi < n then Inr hi else Inr 0))"

section \<open>Splitter (bnode.go)\<close>

text \<open>The two closures of \<open>nodeSplit2\<close>, as functions of the node and of the current
  \<open>nleft\<close>. Each of its two loops is a function of its own: the first one always ends,
  the second one need not, so it returns an \<open>option\<close>.\<close>

definition left_bytes :: "BNode \<Rightarrow> 16 word \<Rightarrow> error + 16 word" where
  "left_bytes old nleft =
     andThen (getOffset old nleft) (\<lambda>off. Inr (4 + 8 * nleft + 2 * nleft + off))"

definition right_bytes :: "BNode \<Rightarrow> 16 word \<Rightarrow> error + 16 word" where
  "right_bytes old nleft =
     andThen (nkeys old) (\<lambda>n.
     andThen (left_bytes old nleft) (\<lambda>lb. Inr (n - lb + 4)))"

function split2_shrink :: "BNode \<Rightarrow> 16 word \<Rightarrow> error + 16 word" where
  "split2_shrink old nleft =
     andThen (left_bytes old nleft) (\<lambda>lb.
       if unat lb > BTREE_PAGE_SIZE then split2_shrink old (nleft - 1) else Inr nleft)"
  by pat_completeness auto
termination
proof (relation "measure (\<lambda>(old, nleft). unat nleft)")
  show "wf (measure (\<lambda>(old, nleft). unat nleft))" by simp
next
  fix old :: BNode and nleft x :: "16 word"
  assume lb: "left_bytes old nleft = Inr x" and big: "BTREE_PAGE_SIZE < unat x"
  have nz: "nleft \<noteq> 0"
  proof
    assume "nleft = 0"
    with lb have "x = 4"
      by (simp add: left_bytes_def getOffset_def andThen_def)
    with big show False by simp
  qed
  then have "unat (nleft - 1) = unat nleft - 1" "0 < unat nleft"
    by (simp_all add: unat_minus_one unat_gt_0)
  then show "((old, nleft - 1), (old, nleft)) \<in> measure (\<lambda>(old, nleft). unat nleft)"
    by simp
qed

partial_function (option) split2_grow :: "BNode \<Rightarrow> 16 word \<Rightarrow> (error + 16 word) option" where
  "split2_grow old nleft =
     (case right_bytes old nleft of
        Inl e \<Rightarrow> Some (Inl e)
      | Inr rb \<Rightarrow>
          if unat rb > BTREE_PAGE_SIZE then split2_grow old (nleft + 1) else Some (Inr nleft))"

text \<open>\<open>nodeSplit2\<close> up to the end of its first loop: the assertion on the key count, the
  initial guess, the first loop, and the assertion that follows it.\<close>

definition split2_guess :: "BNode \<Rightarrow> error + 16 word" where
  "split2_guess old =
     andThen (nkeys old) (\<lambda>n.
     andThen (Assert (n \<ge> 2)) (\<lambda>_.
     andThen (split2_shrink old (n div 2)) (\<lambda>nleft.
     andThen (Assert (nleft \<ge> 1)) (\<lambda>_. Inr nleft))))"

text \<open>\<open>nodeSplit2\<close> after its second loop: the last assertion on \<open>nleft\<close>, the two headers,
  the two copies, and the assertion on the right node.\<close>

definition split2_build :: "BNode \<Rightarrow> BNode \<Rightarrow> BNode \<Rightarrow> 16 word \<Rightarrow> error + BNode \<times> BNode" where
  "split2_build left right old nleft =
     andThen (nkeys old) (\<lambda>n.
     andThen (Assert (nleft < n)) (\<lambda>_.
     let nright = n - nleft in
     andThen (btype old) (\<lambda>bt.
     andThen (setHeader left bt nleft) (\<lambda>left1.
     andThen (setHeader right bt nright) (\<lambda>right1.
     andThen (nodeAppendRange left1 old 0 0 nleft) (\<lambda>left2.
     andThen (nodeAppendRange right1 old 0 nleft nright) (\<lambda>right2.
     andThen (nbytes right2) (\<lambda>rb.
     andThen (Assert (unat rb \<le> BTREE_PAGE_SIZE)) (\<lambda>_.
     Inr (left2, right2))))))))))"

definition nodeSplit2 :: "BNode \<Rightarrow> BNode \<Rightarrow> BNode \<Rightarrow> (error + BNode \<times> BNode) option" where
  "nodeSplit2 left right old =
     (case split2_guess old of
        Inl e \<Rightarrow> Some (Inl e)
      | Inr nleft0 \<Rightarrow>
         (case split2_grow old nleft0 of
            None \<Rightarrow> None
          | Some (Inl e) \<Rightarrow> Some (Inl e)
          | Some (Inr nleft) \<Rightarrow> Some (split2_build left right old nleft)))"

definition nodeSplit3 :: "BNode \<Rightarrow> (error + 16 word \<times> BNode list) option" where
  "nodeSplit3 old =
     (case nbytes old of
        Inl e \<Rightarrow> Some (Inl e)
      | Inr nb \<Rightarrow>
          if unat nb \<le> BTREE_PAGE_SIZE then
            Some (andThen (slice old 0 BTREE_PAGE_SIZE) (\<lambda>old'. Inr (1, [old', [], []])))
          else
            (case nodeSplit2 (replicate (2 * BTREE_PAGE_SIZE) 0) (replicate BTREE_PAGE_SIZE 0) old of
               None \<Rightarrow> None
             | Some (Inl e) \<Rightarrow> Some (Inl e)
             | Some (Inr (left, right)) \<Rightarrow>
                 (case nbytes left of
                    Inl e \<Rightarrow> Some (Inl e)
                  | Inr lb \<Rightarrow>
                      if unat lb \<le> BTREE_PAGE_SIZE then
                        Some (andThen (slice left 0 BTREE_PAGE_SIZE) (\<lambda>left'.
                              Inr (2, [left', right, []])))
                      else
                        (case nodeSplit2 (replicate BTREE_PAGE_SIZE 0)
                                (replicate BTREE_PAGE_SIZE 0) left of
                           None \<Rightarrow> None
                         | Some (Inl e) \<Rightarrow> Some (Inl e)
                         | Some (Inr (leftleft, middle)) \<Rightarrow> Some (
                             andThen (nbytes leftleft) (\<lambda>llb.
                             andThen (Assert (unat llb \<le> BTREE_PAGE_SIZE)) (\<lambda>_.
                             Inr (3, [leftleft, middle, right]))))))))"

section \<open>Tree engine (btree.go)\<close>

text \<open>The three callbacks of \<open>BTree\<close> act on a page store that the tree does not see;
  its state \<open>'s\<close> is threaded through every call.\<close>

record 's BTree =
  root :: "64 word"
  tree_get :: "64 word \<Rightarrow> 's \<Rightarrow> byte list \<times> 's"
  tree_new :: "byte list \<Rightarrow> 's \<Rightarrow> 64 word \<times> 's"
  tree_del :: "64 word \<Rightarrow> 's \<Rightarrow> 's"

fun replaceKid_loop ::
  "'s BTree \<Rightarrow> 's \<Rightarrow> BNode \<Rightarrow> 16 word \<Rightarrow> nat \<Rightarrow> BNode list \<Rightarrow> error + BNode \<times> 's" where
  "replaceKid_loop tree s new idx i [] = Inr (new, s)"
| "replaceKid_loop tree s new idx i (node # kids) =
     (case tree_new tree node s of (p, s1) \<Rightarrow>
        andThen (getKey node 0) (\<lambda>k.
        andThen (nodeAppendKV new (idx + of_nat i) p k []) (\<lambda>new1.
        replaceKid_loop tree s1 new1 idx (Suc i) kids)))"

definition nodeReplaceKidN ::
  "'s BTree \<Rightarrow> 's \<Rightarrow> BNode \<Rightarrow> BNode \<Rightarrow> 16 word \<Rightarrow> BNode list \<Rightarrow> error + BNode \<times> 's" where
  "nodeReplaceKidN tree s new old idx kids =
     (let inc = of_nat (length kids) in
      andThen (nkeys old) (\<lambda>n.
      andThen (setHeader new BNODE_NODE (n + inc - 1)) (\<lambda>new1.
      andThen (nodeAppendRange new1 old 0 0 idx) (\<lambda>new2.
      andThen (replaceKid_loop tree s new2 idx 0 kids) (\<lambda>(new3, s1).
      andThen (nkeys old) (\<lambda>n'.
      andThen (nodeAppendRange new3 old (idx + inc) (idx + 1) (n' - (idx + 1))) (\<lambda>new4.
      Inr (new4, s1))))))))"

text \<open>The internal-node branch of \<open>treeInsert\<close> after the recursive call has returned
  \<open>r\<close>: split the new kid, free the old one, link the results.\<close>

definition treeInsert_link ::
  "'s BTree \<Rightarrow> BNode \<Rightarrow> BNode \<Rightarrow> 16 word \<Rightarrow> 64 word \<Rightarrow> error + BNode \<times> 's
     \<Rightarrow> (error + BNode \<times> 's) option" where
  "treeInsert_link tree new node idx kptr r =
     (case r of
        Inl e \<Rightarrow> Some (Inl e)
      | Inr (knode, s2) \<Rightarrow>
         (case nodeSplit3 knode of
            None \<Rightarrow> None
          | Some (Inl e) \<Rightarrow> Some (Inl e)
          | Some (Inr (nsplit, split)) \<Rightarrow>
              Some (nodeReplaceKidN tree (tree_del tree kptr s2) new node idx
                      (take (unat nsplit) split))))"

partial_function (option) treeInsert ::
  "'s BTree \<Rightarrow> 's \<Rightarrow> BNode \<Rightarrow> byte list \<Rightarrow> byte list \<Rightarrow> (error + BNode \<times> 's) option" where
  "treeInsert tree s node key val =
     (let new = replicate (2 * BTREE_PAGE_SIZE) 0 in
      case nodeLookupLE node key of
        Inl e \<Rightarrow> Some (Inl e)
      | Inr idx \<Rightarrow>
         (case btype node of
            Inl e \<Rightarrow> Some (Inl e)
          | Inr bt \<Rightarrow>
              if bt = BNODE_LEAF then
                Some (andThen (getKey node idx) (\<lambda>k.
                  if key = k then
                    andThen (leafUpdate new node idx key val) (\<lambda>new'. Inr (new', s))
                  else
                    andThen (leafInsert new node (idx + 1) key val) (\<lambda>new'. Inr (new', s))))
              else if bt = BNODE_NODE then
                (case getPtr node idx of
                   Inl e \<Rightarrow> Some (Inl e)
                 | Inr kptr \<Rightarrow>
                    (case tree_get tree kptr s of (page, s1) \<Rightarrow>
                       Option.bind (treeInsert tree s1 page key val)
                         (treeInsert_link tree new node idx kptr)))
              else Some (Inr (new, s))))"

section \<open>What a node holds\<close>

text \<open>
  An entry is the pointer, key and value of one slot. \<open>holds node bt N es\<close> says that the
  buffer \<open>node\<close> has the header \<open>(bt, N)\<close> and that its first \<open>length es\<close> slots have been
  appended, left to right, with the entries \<open>es\<close>, laid out as bnode.go documents: the pointer
  of slot \<open>i\<close> at byte \<open>4 + 8 i\<close>, the end offset of record \<open>i\<close> at \<open>4 + 8 N + 2 i\<close>, and the
  records packed from byte \<open>4 + 10 N\<close> on. The whole fits the buffer and 16 bits.
\<close>

type_synonym entry = "64 word \<times> byte list \<times> byte list"

definition rec_size :: "entry \<Rightarrow> nat" where
  "rec_size e = 4 + length (fst (snd e)) + length (snd (snd e))"

definition kv_size :: "entry list \<Rightarrow> nat" where
  "kv_size es = sum_list (map rec_size es)"

definition encode_rec :: "entry \<Rightarrow> byte list" where
  "encode_rec e = le16 (of_nat (length (fst (snd e)))) @ le16 (of_nat (length (snd (snd e))))
                  @ fst (snd e) @ snd (snd e)"

definition read_at :: "byte list \<Rightarrow> nat \<Rightarrow> nat \<Rightarrow> byte list" where
  "read_at buf pos m = take m (drop pos buf)"

definition holds :: "BNode \<Rightarrow> 16 word \<Rightarrow> nat \<Rightarrow> entry list \<Rightarrow> bool" where
  "holds node bt N es \<longleftrightarrow>
     length es \<le> N \<and>
     4 + 10 * N + kv_size es \<le> length node \<and>
     4 + 10 * N + kv_size es < 65536 \<and>
     read_at node 0 4 = le16 bt @ le16 (of_nat N) \<and>
     (\<forall>i < length es.
        read_at node (4 + 8 * i) 8 = le64 (fst (es ! i)) \<and>
        read_at node (4 + 8 * N + 2 * i) 2 = le16 (of_nat (kv_size (take (Suc i) es))) \<and>
        read_at node (4 + 10 * N + kv_size (take i es)) (rec_size (es ! i)) = encode_rec (es ! i))"

text \<open>
  What the accessors of the source report. \<open>slots node src xs\<close>: the slots \<open>src, src + 1, ...\<close>
  of \<open>node\<close> read, through \<open>getPtr\<close>, \<open>getKey\<close> and \<open>getVal\<close>, as the entries \<open>xs\<close>.
  \<open>reads_as node bt es\<close>: the node has type \<open>bt\<close>, \<open>length es\<close> keys, and reads as \<open>es\<close>.
\<close>

definition slots :: "BNode \<Rightarrow> 16 word \<Rightarrow> entry list \<Rightarrow> bool" where
  "slots node src xs \<longleftrightarrow>
     (\<forall>j < length xs.
        getPtr node (src + of_nat j) = Inr (fst (xs ! j)) \<and>
        getKey node (src + of_nat j) = Inr (fst (snd (xs ! j))) \<and>
        getVal node (src + of_nat j) = Inr (snd (snd (xs ! j))))"

definition reads_as :: "BNode \<Rightarrow> 16 word \<Rightarrow> entry list \<Rightarrow> bool" where
  "reads_as node bt es \<longleftrightarrow>
     btype node = Inr bt \<and> nkeys node = Inr (of_nat (length es)) \<and> length es < 65536 \<and>
     slots node 0 es"

text \<open>The order of keys is that of \<open>bytes.Compare\<close>.\<close>

definition key_lt :: "byte list \<Rightarrow> byte list \<Rightarrow> bool" where
  "key_lt a b \<longleftrightarrow> bytes_Compare a b < 0"

text \<open>A page store for running the tree engine on examples: the pages are numbered from 1
  in the order of their allocation, and nothing is ever reused.\<close>

definition list_store :: "byte list list BTree" where
  "list_store = \<lparr>root = 0,
     tree_get = (\<lambda>p s. (if 0 < unat p \<and> unat p \<le> length s then s ! (unat p - 1) else [], s)),
     tree_new = (\<lambda>b s. (of_nat (Suc (length s)), s @ [b])),
     tree_del = (\<lambda>p s. s)\<rparr>"

definition empty_leaf :: BNode where
  "empty_leaf = le16 BNODE_LEAF @ le16 0 @ replicate (BTREE_PAGE_SIZE - 4) 0"

text \<open>Keys in strictly ascending order, which is sorted and free of duplicates.\<close>

definition ascending :: "entry list \<Rightarrow> bool" where
  "ascending es \<longleftrightarrow> sorted_wrt key_lt (map (\<lambda>e. fst (snd e)) es)"

text \<open>
  A node built as the tests of the source build one (\<open>setupBtreeNode\<close>): the header, then
  one \<open>nodeAppendKV\<close> per entry, left to right.
\<close>

fun appendKVs :: "BNode \<Rightarrow> 16 word \<Rightarrow> entry list \<Rightarrow> error + BNode" where
  "appendKVs new idx [] = Inr new"
| "appendKVs new idx ((p, k, v) # es) =
     andThen (nodeAppendKV new idx p k v) (\<lambda>new'. appendKVs new' (idx + 1) es)"

definition build_node :: "BNode \<Rightarrow> 16 word \<Rightarrow> entry list \<Rightarrow> error + BNode" where
  "build_node buf bt es =
     andThen (setHeader buf bt (of_nat (length es))) (\<lambda>node. appendKVs node 0 es)"

text \<open>Example data: the three-pair leaf of bnode\_test.go in a one-page buffer, and two
  records with values of the largest size allowed.\<close>

definition ascii :: "string \<Rightarrow> byte list" where
  "ascii s = map (\<lambda>c. of_nat (of_char c)) s"

definition es3 :: "entry list" where
  "es3 = [(0, ascii ''k1'', ascii ''v1''), (0, ascii ''k2'', ascii ''v2''),
          (0, ascii ''k3'', ascii ''v3'')]"

definition leaf3 :: BNode where
  "leaf3 = (case build_node (replicate BTREE_PAGE_SIZE 0) BNODE_LEAF es3 of
              Inr node \<Rightarrow> node | Inl e \<Rightarrow> [])"

definition es_big :: "entry list" where
  "es_big = [(0, ascii ''k1'', replicate BTREE_MAX_VAL_SIZE 97),
             (0, ascii ''k2'', replicate BTREE_MAX_VAL_SIZE 98)]"

text \<open>The same key inserted once per value of a list, each time into the node that the
  insertion before it returned.\<close>

fun treeInsert_vals ::
  "'s BTree \<Rightarrow> 's \<Rightarrow> BNode \<Rightarrow> byte list \<Rightarrow> byte list list \<Rightarrow> (error + BNode \<times> 's) option" where
  "treeInsert_vals tree s node key [] = Some (Inr (node, s))"
| "treeInsert_vals tree s node key (val # vals) =
     (case treeInsert tree s node key val of
        None \<Rightarrow> None
      | Some (Inl e) \<Rightarrow> Some (Inl e)
      | Some (Inr (node', s')) \<Rightarrow> treeInsert_vals tree s' node' key vals)"

definition es2 :: "entry list" where
  "es2 = [(0, ascii ''k1'', ascii ''v1''), (0, ascii ''k2'', ascii ''v2'')]"

definition leaf2 :: BNode where
  "leaf2 = (case build_node (replicate BTREE_PAGE_SIZE 0) BNODE_LEAF es2 of
              Inr node \<Rightarrow> node | Inl e \<Rightarrow> [])"

text \<open>
  The entries that \<open>nodeReplaceKidN\<close> is to link for a list of kids, and the page store after
  it: for each kid in turn, the page number that \<open>tree.new\<close> returns for it, its first key
  \<open>getKey(0)\<close>, and no value.
\<close>

fun kid_links :: "'s BTree \<Rightarrow> 's \<Rightarrow> BNode list \<Rightarrow> entry list \<times> 's" where
  "kid_links tree s [] = ([], s)"
| "kid_links tree s (kid # kids) =
     (case tree_new tree kid s of (p, s1) \<Rightarrow>
        case kid_links tree s1 kids of (es, s2) \<Rightarrow>
          ((p, (case getKey kid 0 of Inr k \<Rightarrow> k | Inl e \<Rightarrow> []), []) # es, s2))"

text \<open>Example data: an internal node of two links.\<close>

definition es_inner :: "entry list" where
  "es_inner = [(11, ascii ''k1'', []), (12, ascii ''k5'', [])]"

definition inner2 :: BNode where
  "inner2 = (case build_node (replicate BTREE_PAGE_SIZE 0) BNODE_NODE es_inner of
               Inr node \<Rightarrow> node | Inl e \<Rightarrow> [])"

text \<open>
  The part of \<open>holds\<close> that an append keeps even where the buffer is too short for the
  record it stores: the header, and the end offsets of the slots filled so far.
  \<open>left_size es k\<close> is the size in bytes of a node made of the first \<open>k\<close> entries of \<open>es\<close>.
\<close>

definition tables :: "BNode \<Rightarrow> 16 word \<Rightarrow> nat \<Rightarrow> entry list \<Rightarrow> bool" where
  "tables node bt N es \<longleftrightarrow>
     length es \<le> N \<and>
     4 + 10 * N + kv_size es < 65536 \<and>
     read_at node 0 4 = le16 bt @ le16 (of_nat N) \<and>
     (\<forall>i < length es.
        read_at node (4 + 8 * N + 2 * i) 2 = le16 (of_nat (kv_size (take (Suc i) es))))"

definition left_size :: "entry list \<Rightarrow> nat \<Rightarrow> nat" where
  "left_size es k = 4 + 10 * k + kv_size (take k es)"

text \<open>Example data: the two large records in a buffer of two pages, as \<open>treeInsert\<close> would
  hand them to the splitter.\<close>

definition big2 :: BNode where
  "big2 = (case build_node (replicate (2 * BTREE_PAGE_SIZE) 0) BNODE_LEAF es_big of
             Inr node \<Rightarrow> node | Inl e \<Rightarrow> [])"

text \<open>Example data for appends that do not fit: a one-page leaf with one value of the largest
  size allowed, and a one-page leaf with such a value and a short one.\<close>

definition es_one :: "entry list" where
  "es_one = [(0, ascii ''k1'', replicate BTREE_MAX_VAL_SIZE 97)]"

definition leaf_one :: BNode where
  "leaf_one = (case build_node (replicate BTREE_PAGE_SIZE 0) BNODE_LEAF es_one of
                 Inr node \<Rightarrow> node | Inl e \<Rightarrow> [])"

definition es_upd :: "entry list" where
  "es_upd = [(0, ascii ''k1'', replicate BTREE_MAX_VAL_SIZE 97), (0, ascii ''k2'', ascii ''v'')]"

definition leaf_upd :: BNode where
  "leaf_upd = (case build_node (replicate BTREE_PAGE_SIZE 0) BNODE_LEAF es_upd of
                 Inr node \<Rightarrow> node | Inl e \<Rightarrow> [])"

text \<open>The leaf that \<open>treeInsert\<close> returns when \<open>k0\<close>, a key below every key of the test leaf,
  is inserted into it; \<open>es_k0\<close> are the entries it then holds, in slot order.\<close>

definition es_k0 :: "entry list" where
  "es_k0 = [(0, ascii ''k1'', ascii ''v1''), (0, ascii ''k0'', ascii ''v0''),
            (0, ascii ''k2'', ascii ''v2''), (0, ascii ''k3'', ascii ''v3'')]"

definition leaf_k0 :: BNode where
  "leaf_k0 = (case treeInsert list_store [] leaf3 (ascii ''k0'') (ascii ''v0'') of
                Some (Inr (node, s)) \<Rightarrow> node | _ \<Rightarrow> [])"

text \<open>Example data: a one-page internal node of four keys of the largest size allowed, and
  a one-page leaf whose only key is 1000 bytes of \<open>c\<close>.\<close>

definition es_wide :: "entry list" where
  "es_wide = [(11, replicate BTREE_MAX_KEY_SIZE 97, []), (12, replicate BTREE_MAX_KEY_SIZE 98, []),
              (13, replicate BTREE_MAX_KEY_SIZE 99, []), (14, replicate BTREE_MAX_KEY_SIZE 100, [])]"

definition inner_wide :: BNode where
  "inner_wide = (case build_node (replicate BTREE_PAGE_SIZE 0) BNODE_NODE es_wide of
                   Inr node \<Rightarrow> node | Inl e \<Rightarrow> [])"

definition kid_wide :: "byte \<Rightarrow> BNode" where
  "kid_wide c = (case build_node (replicate BTREE_PAGE_SIZE 0) BNODE_LEAF
                        [(0, replicate BTREE_MAX_KEY_SIZE c, ascii ''v'')] of
                   Inr node \<Rightarrow> node | Inl e \<Rightarrow> [])"

section \<open>Codec lemmas\<close>

lemma andThen_simps [simp]:
  "andThen (Inr x) f = f x" "andThen (Inl e) f = Inl e"
  by (simp_all add: andThen_def)

lemma Assert_simps [simp]: "Assert True = Inr ()" "Assert False = Inl AssertionFailed"
  by (simp_all add: Assert_def)

lemma length_le16 [simp]: "length (le16 v) = 2"
  by (simp add: le16_def)

lemma length_le64 [simp]: "length (le64 v) = 8"
  by (simp add: le64_def)

lemma Uint16_le16: "Uint16 (le16 v @ bs) = Inr v"
  by (simp add: Uint16_def le16_def) (rule bit_word_eqI, auto simp: bit_simps)

lemma w16: "a < 65536 \<Longrightarrow> unat (of_nat a :: 16 word) = a"
  by (simp add: unat_of_nat)

lemma length_write_at [simp]:
  "pos + length bs \<le> length buf \<Longrightarrow> length (write_at buf pos bs) = length buf"
  by (simp add: write_at_def)

lemma read_at_write_same:
  "pos + length bs \<le> length buf \<Longrightarrow> m = length bs \<Longrightarrow> read_at (write_at buf pos bs) pos m = bs"
  by (simp add: read_at_def write_at_def)

lemma read_at_write_before:
  "q + m \<le> pos \<Longrightarrow> pos + length bs \<le> length buf \<Longrightarrow>
   read_at (write_at buf pos bs) q m = read_at buf q m"
  by (simp add: read_at_def write_at_def take_drop)

lemma read_at_write_after:
  "pos + length bs \<le> q \<Longrightarrow> pos + length bs \<le> length buf \<Longrightarrow>
   read_at (write_at buf pos bs) q m = read_at buf q m"
  by (simp add: read_at_def write_at_def)

lemma read_at_split:
  "read_at buf q (a + b) = read_at buf q a @ read_at buf (q + a) b"
  by (simp add: read_at_def take_add add.commute)

lemma read_at_prefix:
  "read_at buf q m = xs @ ys \<Longrightarrow> read_at buf q (length xs) = xs"
proof -
  assume a: "read_at buf q m = xs @ ys"
  have "read_at buf q (length xs) = take (length xs) (read_at buf q m)"
  proof -
    have "length xs \<le> m"
      using arg_cong [OF a, of length] by (simp add: read_at_def)
    then show ?thesis by (simp add: read_at_def min_def)
  qed
  then show ?thesis by (simp add: a)
qed

lemma Uint16_read:
  "read_at buf q 2 = le16 v \<Longrightarrow>
   andThen (slice_from buf q) Uint16 = Inr v"
proof -
  assume a: "read_at buf q 2 = le16 v"
  have l: "q + 2 \<le> length buf"
    using arg_cong [OF a, of length] by (simp add: read_at_def)
  have "drop q buf = take 2 (drop q buf) @ drop 2 (drop q buf)"
    by (rule append_take_drop_id [symmetric])
  then have "drop q buf = le16 v @ drop 2 (drop q buf)"
    using a by (simp add: read_at_def)
  then have "Uint16 (drop q buf) = Inr v"
    using Uint16_le16 by metis
  then show ?thesis using l by (simp add: slice_from_def)
qed


lemma byte_at: "n < 64 \<Longrightarrow> k \<le> 56 \<Longrightarrow> bit (push_bit k (ucast (ucast (drop_bit k (v::64 word)) :: 8 word)) :: 64 word) n \<longleftrightarrow> k \<le> n \<and> n < k + 8 \<and> bit v n"
  by (auto simp: bit_simps)

lemma byte_at0: "n < 64 \<Longrightarrow> bit (ucast (ucast (v::64 word) :: 8 word) :: 64 word) n \<longleftrightarrow> n < 8 \<and> bit v n"
  by (auto simp: bit_simps)

lemma le64_rt: "ucast (ucast (v::64 word) :: 8 word) OR push_bit 8 (ucast (ucast (drop_bit 8 v) :: 8 word))
   OR push_bit 16 (ucast (ucast (drop_bit 16 v) :: 8 word))
   OR push_bit 24 (ucast (ucast (drop_bit 24 v) :: 8 word))
   OR push_bit 32 (ucast (ucast (drop_bit 32 v) :: 8 word))
   OR push_bit 40 (ucast (ucast (drop_bit 40 v) :: 8 word))
   OR push_bit 48 (ucast (ucast (drop_bit 48 v) :: 8 word))
   OR push_bit 56 (ucast (ucast (drop_bit 56 v) :: 8 word))
 = v" (is "?l = v")
proof (rule bit_word_eqI)
  fix n assume "n < LENGTH(64)"
  then have n: "n < 64" by simp
  show "bit ?l n = bit v n"
    using n by (simp add: bit_or_iff byte_at byte_at0) arith
qed

lemma Uint64_le64: "Uint64 (le64 v @ bs) = Inr v"
  using le64_rt[of v] by (simp add: Uint64_def le64_def)

lemma Uint64_read:
  "read_at buf q 8 = le64 v \<Longrightarrow>
   andThen (slice_from buf q) Uint64 = Inr v"
proof -
  assume a: "read_at buf q 8 = le64 v"
  have l: "q + 8 \<le> length buf"
    using arg_cong [OF a, of length] by (simp add: read_at_def)
  have "drop q buf = take 8 (drop q buf) @ drop 8 (drop q buf)"
    by (rule append_take_drop_id [symmetric])
  then have "drop q buf = le64 v @ drop 8 (drop q buf)"
    using a by (simp add: read_at_def)
  then have "Uint64 (drop q buf) = Inr v"
    using Uint64_le64 by metis
  then show ?thesis using l by (simp add: slice_from_def)
qed

lemma PutUint16_at_ok:
  "pos + 2 \<le> length node \<Longrightarrow> PutUint16_at node pos v = Inr (write_at node pos (le16 v))"
  by (simp add: PutUint16_at_def slice_from_def)

lemma PutUint64_at_ok:
  "pos + 8 \<le> length node \<Longrightarrow> PutUint64_at node pos v = Inr (write_at node pos (le64 v))"
  by (simp add: PutUint64_at_def slice_from_def)

lemma copy_at_ok:
  "pos + length src \<le> length node \<Longrightarrow> copy_at node pos src = Inr (write_at node pos src)"
  by (simp add: copy_at_def slice_from_def)

lemma header_read:
  assumes "read_at node 0 4 = le16 bt @ le16 n"
  shows "btype node = Inr bt" "nkeys node = Inr n"
proof -
  have l: "4 \<le> length node"
    using arg_cong [OF assms, of length] by (simp add: read_at_def)
  have a: "take 4 node = le16 bt @ le16 n"
    using assms by (simp add: read_at_def)
  have "take 2 node = take 2 (take 4 node)" by (simp add: min_def)
  also have "\<dots> = le16 bt" by (simp add: a)
  finally show "btype node = Inr bt"
    using l Uint16_le16 [of bt "[]"] by (simp add: btype_def slice_def)
  have "take 2 (drop 2 node) = take 2 (drop 2 (take 4 node))"
    by (simp add: drop_take)
  also have "\<dots> = le16 n" by (simp add: a)
  finally show "nkeys node = Inr n"
    using l Uint16_le16 [of n "[]"] by (simp add: nkeys_def slice_def)
qed

lemma holds_header:
  "holds node bt N es \<Longrightarrow> btype node = Inr bt"
  "holds node bt N es \<Longrightarrow> nkeys node = Inr (of_nat N)"
  by (auto simp: holds_def dest: header_read)

lemma kv_size_Nil [simp]: "kv_size [] = 0"
  by (simp add: kv_size_def)

lemma kv_size_append [simp]: "kv_size (xs @ ys) = kv_size xs + kv_size ys"
  by (simp add: kv_size_def)

lemma kv_size_Cons [simp]: "kv_size (x # xs) = rec_size x + kv_size xs"
  by (simp add: kv_size_def)

lemma kv_size_take_Suc:
  "i < length es \<Longrightarrow> kv_size (take (Suc i) es) = kv_size (take i es) + rec_size (es ! i)"
  by (simp add: take_Suc_conv_app_nth)

lemma kv_size_take_le: "kv_size (take i es) \<le> kv_size es"
proof -
  have "kv_size es = kv_size (take i es) + kv_size (drop i es)"
    by (metis append_take_drop_id kv_size_append)
  then show ?thesis by simp
qed

lemma holds_N: "holds node bt N es \<Longrightarrow> N < 6554"
  by (simp add: holds_def)

lemma holds_getOffset:
  assumes h: "holds node bt N es" and i: "i \<le> length es"
  shows "getOffset node (of_nat i) = Inr (of_nat (kv_size (take i es)))"
proof (cases i)
  case 0
  then show ?thesis by (simp add: getOffset_def)
next
  case (Suc j)
  with i have j: "j < length es" by simp
  from h j have N: "N < 6554" "j < N" "4 + 10 * N < 65536"
    by (simp_all add: holds_def)
  have "unat (of_nat (Suc j) :: 16 word) = Suc j"
    using N by (intro w16) simp
  then have nz: "(of_nat (Suc j) :: 16 word) \<noteq> 0"
    by auto
  have "(4 + 8 * of_nat N + 2 * (of_nat (Suc j) - 1) :: 16 word) = of_nat (4 + 8 * N + 2 * j)"
    by simp
  moreover have "unat (of_nat (4 + 8 * N + 2 * j) :: 16 word) = 4 + 8 * N + 2 * j"
    using N by (intro w16) simp
  moreover have "read_at node (4 + 8 * N + 2 * j) 2 = le16 (of_nat (kv_size (take (Suc j) es)))"
    using h j by (simp add: holds_def)
  ultimately show ?thesis
    using nz holds_header(2) [OF h] Suc
    by (simp add: getOffset_def Uint16_read del: of_nat_Suc of_nat_add of_nat_mult)
qed


lemma w16_add: "a + b < 65536 \<Longrightarrow> unat (of_nat a + of_nat b :: 16 word) = a + b"
  using w16 [of "a + b"] by simp

lemma w16_add_num:
  "a + numeral b < 65536 \<Longrightarrow> unat (of_nat a + numeral b :: 16 word) = a + numeral b"
  using w16_add [of a "numeral b"] by simp

lemma w16_add_num_add:
  "a + numeral b + c < 65536 \<Longrightarrow>
   unat (of_nat a + numeral b + of_nat c :: 16 word) = a + numeral b + c"
  using w16_add [of "a + numeral b" c] by simp

lemma w16_le: "a < 65536 \<Longrightarrow> b < 65536 \<Longrightarrow> (of_nat a :: 16 word) \<le> of_nat b \<longleftrightarrow> a \<le> b"
  by (simp add: word_le_nat_alt w16)

lemma w16_less: "a < 65536 \<Longrightarrow> b < 65536 \<Longrightarrow> (of_nat a :: 16 word) < of_nat b \<longleftrightarrow> a < b"
  by (simp add: word_less_nat_alt w16)

lemma read_at_suffix:
  assumes a: "read_at buf q m = xs @ ys"
  shows "read_at buf (q + length xs) (length ys) = ys"
proof -
  have l: "length xs + length ys \<le> m"
    using arg_cong [OF a, of length] by (simp add: read_at_def)
  have "read_at buf (q + length xs) (length ys)
      = take (length ys) (drop (length xs) (read_at buf q m))"
    using l by (simp add: read_at_def drop_take add.commute min_def)
  then show ?thesis by (simp add: a)
qed

lemma read_at_length: "read_at buf q m = xs \<Longrightarrow> q + length xs \<le> length buf \<or> length xs = 0"
  by (auto simp: read_at_def)

lemma holds_kvPos:
  assumes h: "holds node bt N es" and i: "i \<le> length es"
  shows "kvPos node (of_nat i) = Inr (of_nat (4 + 10 * N + kv_size (take i es)))"
proof -
  from h i have b: "i < 65536" "N < 65536" "i \<le> N"
    by (simp_all add: holds_def)
  then have "(of_nat i :: 16 word) \<le> of_nat N"
    by (simp add: w16_le)
  then show ?thesis
    using holds_header(2) [OF h] holds_getOffset [OF h i]
    by (simp add: kvPos_def)
qed

lemma holds_nbytes:
  assumes h: "holds node bt N es" and n: "length es = N"
  shows "nbytes node = Inr (of_nat (4 + 10 * N + kv_size es))"
  using holds_header(2) [OF h] holds_kvPos [OF h, of N] n
  by (simp add: nbytes_def)

lemma holds_record:
  assumes h: "holds node bt N es" and i: "i < length es" and e: "es ! i = (p, k, v)"
  defines "P \<equiv> 4 + 10 * N + kv_size (take i es)"
  shows "read_at node P 2 = le16 (of_nat (length k))"
    and "read_at node (P + 2) 2 = le16 (of_nat (length v))"
    and "read_at node (P + 4) (length k) = k"
    and "read_at node (P + 4 + length k) (length v) = v"
    and "P + 4 + length k + length v \<le> length node"
    and "P + 4 + length k + length v < 65536"
proof -
  have r: "read_at node P (rec_size (es ! i)) = encode_rec (es ! i)"
    using h i by (simp add: holds_def P_def)
  then have r1: "read_at node P (rec_size (es ! i))
      = le16 (of_nat (length k)) @ (le16 (of_nat (length v)) @ k @ v)"
    by (simp add: encode_rec_def e)
  from read_at_prefix [OF r1] show "read_at node P 2 = le16 (of_nat (length k))"
    by simp
  from read_at_suffix [OF r1]
  have r2: "read_at node (P + 2) (4 + length k + length v - 2) = le16 (of_nat (length v)) @ (k @ v)"
    by simp
  from read_at_prefix [OF r2] show "read_at node (P + 2) 2 = le16 (of_nat (length v))"
    by simp
  have "P + 2 + length (le16 (of_nat (length v) :: 16 word)) = P + 4"
    by simp
  with read_at_suffix [OF r2]
  have r3: "read_at node (P + 4) (length k + length v) = k @ v"
    by (simp only: length_append)
  from read_at_prefix [OF r3] show "read_at node (P + 4) (length k) = k" .
  from read_at_suffix [OF r3] show "read_at node (P + 4 + length k) (length v) = v" .
  have "kv_size (take (Suc i) es) \<le> kv_size es"
    by (rule kv_size_take_le)
  then have le: "P + rec_size (es ! i) \<le> 4 + 10 * N + kv_size es"
    using i by (simp add: P_def kv_size_take_Suc)
  from le h show "P + 4 + length k + length v \<le> length node"
    by (simp add: holds_def rec_size_def e)
  from le h show "P + 4 + length k + length v < 65536"
    by (simp add: holds_def rec_size_def e)
qed

lemma holds_getKey:
  assumes h: "holds node bt N es" and i: "i < length es"
  shows "getKey node (of_nat i) = Inr (fst (snd (es ! i)))"
proof -
  obtain p k v where e: "es ! i = (p, k, v)"
    by (cases "es ! i") auto
  define P where "P = 4 + 10 * N + kv_size (take i es)"
  note r = holds_record [OF h i e, folded P_def]
  from h i have b: "i < 65536" "N < 65536" "i < N"
    by (simp_all add: holds_def)
  then have lt: "(of_nat i :: 16 word) < of_nat N"
    by (simp add: w16_less)
  have kp: "kvPos node (of_nat i) = Inr (of_nat P)"
    using holds_kvPos [OF h, of i] i by (simp add: P_def)
  have u: "unat (of_nat P :: 16 word) = P" "unat (of_nat P + 4 :: 16 word) = P + 4"
    "unat (of_nat (length k) :: 16 word) = length k"
    using r(6) by (simp_all add: w16 w16_add_num)
  have s: "slice (drop (P + 4) node) 0 (length k) = Inr k"
    using r(3) r(5) by (simp add: slice_def read_at_def)
  show ?thesis
    using holds_header(2) [OF h] lt kp u Uint16_read [OF r(1)] r(5) s
    by (simp add: getKey_def e slice_from_def)
qed

lemma holds_getVal:
  assumes h: "holds node bt N es" and i: "i < length es"
  shows "getVal node (of_nat i) = Inr (snd (snd (es ! i)))"
proof -
  obtain p k v where e: "es ! i = (p, k, v)"
    by (cases "es ! i") auto
  define P where "P = 4 + 10 * N + kv_size (take i es)"
  note r = holds_record [OF h i e, folded P_def]
  from h i have b: "i < 65536" "N < 65536" "i < N"
    by (simp_all add: holds_def)
  then have lt: "(of_nat i :: 16 word) < of_nat N"
    by (simp add: w16_less)
  have kp: "kvPos node (of_nat i) = Inr (of_nat P)"
    using holds_kvPos [OF h, of i] i by (simp add: P_def)
  have u: "unat (of_nat P :: 16 word) = P" "unat (of_nat P + 2 :: 16 word) = P + 2"
    "unat (of_nat P + 4 + of_nat (length k) :: 16 word) = P + 4 + length k"
    "unat (of_nat (length v) :: 16 word) = length v"
    using r(6) by (simp_all add: w16 w16_add_num w16_add_num_add)
  have s: "slice (drop (P + 4 + length k) node) 0 (length v) = Inr v"
    using r(4) r(5) by (simp add: slice_def read_at_def)
  show ?thesis
    using holds_header(2) [OF h] lt kp u Uint16_read [OF r(1)] Uint16_read [OF r(2)] r(5) s
    by (simp add: getVal_def e slice_from_def)
qed

lemma holds_getPtr:
  assumes h: "holds node bt N es" and i: "i < length es"
  shows "getPtr node (of_nat i) = Inr (fst (es ! i))"
proof -
  from h i have b: "i < 65536" "N < 65536" "i < N" "N < 6554"
    by (simp_all add: holds_def)
  then have lt: "(of_nat i :: 16 word) < of_nat N"
    by (simp add: w16_less)
  have u: "unat (4 + 8 * of_nat i :: 16 word) = 4 + 8 * i"
    using b w16 [of "4 + 8 * i"] by simp
  have "read_at node (4 + 8 * i) 8 = le64 (fst (es ! i))"
    using h i by (simp add: holds_def)
  from Uint64_read [OF this] show ?thesis
    using holds_header(2) [OF h] lt u by (simp add: getPtr_def)
qed


lemma read_at_write_disj:
  "q + m \<le> pos \<or> pos + length bs \<le> q \<Longrightarrow> pos + length bs \<le> length buf \<Longrightarrow>
   read_at (write_at buf pos bs) q m = read_at buf q m"
  by (auto simp: read_at_write_before read_at_write_after)

lemma setHeader_holds:
  assumes "4 + 10 * N \<le> length buf" "4 + 10 * N < 65536"
  obtains b where "setHeader buf bt (of_nat N) = Inr b" "length b = length buf" "holds b bt N []"
proof -
  define b where "b = write_at (write_at buf 0 (le16 bt)) 2 (le16 (of_nat N))"
  have l: "4 \<le> length buf" using assms by simp
  then have s: "setHeader buf bt (of_nat N) = Inr b"
    by (simp add: setHeader_def slice_def PutUint16_at_ok b_def)
  have lb: "length b = length buf"
    using l by (simp add: b_def)
  have "read_at b 0 4 = le16 bt @ le16 (of_nat N)"
    using l by (simp add: b_def read_at_def write_at_def)
  then have "holds b bt N []"
    using assms lb by (simp add: holds_def)
  with s lb show ?thesis by (rule that)
qed

lemma holds_write_free:
  assumes h: "holds node bt N es"
    and free: "(4 + 8 * length es \<le> q \<and> q + length bs \<le> 4 + 8 * N)
             \<or> (4 + 8 * N + 2 * length es \<le> q \<and> q + length bs \<le> 4 + 10 * N)
             \<or> 4 + 10 * N + kv_size es \<le> q"
    and fit: "q + length bs \<le> length node"
  shows "holds (write_at node q bs) bt N es"
proof -
  have len: "length (write_at node q bs) = length node"
    using fit by simp
  from h have n: "length es \<le> N" by (simp add: holds_def)
  have hd: "read_at (write_at node q bs) 0 4 = read_at node 0 4"
    using free fit by (intro read_at_write_disj) auto
  have ent: "read_at (write_at node q bs) (4 + 8 * i) 8 = read_at node (4 + 8 * i) 8"
    "read_at (write_at node q bs) (4 + 8 * N + 2 * i) 2 = read_at node (4 + 8 * N + 2 * i) 2"
    "read_at (write_at node q bs) (4 + 10 * N + kv_size (take i es)) (rec_size (es ! i))
       = read_at node (4 + 10 * N + kv_size (take i es)) (rec_size (es ! i))"
    if i: "i < length es" for i
  proof -
    have k: "kv_size (take i es) + rec_size (es ! i) \<le> kv_size es"
      using kv_size_take_le [of "Suc i" es] i by (simp add: kv_size_take_Suc)
    show "read_at (write_at node q bs) (4 + 8 * i) 8 = read_at node (4 + 8 * i) 8"
      using free fit i n by (intro read_at_write_disj) auto
    show "read_at (write_at node q bs) (4 + 8 * N + 2 * i) 2 = read_at node (4 + 8 * N + 2 * i) 2"
      using free fit i n by (intro read_at_write_disj) auto
    show "read_at (write_at node q bs) (4 + 10 * N + kv_size (take i es)) (rec_size (es ! i))
       = read_at node (4 + 10 * N + kv_size (take i es)) (rec_size (es ! i))"
      using free fit i n k by (intro read_at_write_disj) auto
  qed
  show ?thesis
    using h unfolding holds_def len hd by (simp add: ent)
qed

lemma holds_snoc:
  assumes h: "holds node bt N es"
    and n: "length es < N"
    and fit: "4 + 10 * N + kv_size es + rec_size e \<le> length node"
             "4 + 10 * N + kv_size es + rec_size e < 65536"
    and ptr: "read_at node (4 + 8 * length es) 8 = le64 (fst e)"
    and off: "read_at node (4 + 8 * N + 2 * length es) 2 = le16 (of_nat (kv_size es + rec_size e))"
    and kv: "read_at node (4 + 10 * N + kv_size es) (rec_size e) = encode_rec e"
  shows "holds node bt N (es @ [e])"
  unfolding holds_def
proof (intro conjI allI impI)
  fix i assume "i < length (es @ [e])"
  then consider "i < length es" | "i = length es" by fastforce
  then show "read_at node (4 + 8 * i) 8 = le64 (fst ((es @ [e]) ! i))"
    using h ptr by cases (simp_all add: holds_def nth_append)
next
  fix i assume "i < length (es @ [e])"
  then consider "i < length es" | "i = length es" by fastforce
  then show "read_at node (4 + 8 * N + 2 * i) 2 = le16 (of_nat (kv_size (take (Suc i) (es @ [e]))))"
    using h off by cases (simp_all add: holds_def)
next
  fix i assume "i < length (es @ [e])"
  then consider "i < length es" | "i = length es" by fastforce
  then show "read_at node (4 + 10 * N + kv_size (take i (es @ [e]))) (rec_size ((es @ [e]) ! i))
      = encode_rec ((es @ [e]) ! i)"
    using h kv by cases (simp_all add: holds_def nth_append)
qed (use h n fit in \<open>simp_all add: holds_def\<close>)

lemma nodeAppendKV_holds:
  assumes h: "holds node bt N es"
    and n: "length es < N"
    and fit: "4 + 10 * N + kv_size es + (4 + length k + length v) \<le> length node"
             "4 + 10 * N + kv_size es + (4 + length k + length v) < 65536"
  obtains b where "nodeAppendKV node (of_nat (length es)) p k v = Inr b"
    "length b = length node" "holds b bt N (es @ [(p, k, v)])"
proof -
  define i where "i = length es"
  define P where "P = 4 + 10 * N + kv_size es"
  define b1 where "b1 = write_at node (4 + 8 * i) (le64 p)"
  define b2 where "b2 = write_at b1 P (le16 (of_nat (length k)))"
  define b3 where "b3 = write_at b2 (P + 2) (le16 (of_nat (length v)))"
  define b4 where "b4 = write_at b3 (P + 4) k"
  define b5 where "b5 = write_at b4 (P + 4 + length k) v"
  define b6 where "b6 = write_at b5 (4 + 8 * N + 2 * i)
                           (le16 (of_nat (kv_size es + (4 + length k + length v))))"
  have iN: "i < N" using n by (simp add: i_def)
  have PL: "P + 4 + length k + length v \<le> length node" "P + 4 + length k + length v < 65536"
    using fit by (simp_all add: P_def)
  have P10: "4 + 10 * N \<le> P" by (simp add: P_def)
  have l1: "length b1 = length node"
    using iN PL P10 by (simp add: b1_def)
  have l2: "length b2 = length node"
    using PL l1 by (simp add: b2_def)
  have l3: "length b3 = length node"
    using PL l2 by (simp add: b3_def)
  have l4: "length b4 = length node"
    using PL l3 by (simp add: b4_def)
  have l5: "length b5 = length node"
    using PL l4 by (simp add: b5_def)
  have l6: "length b6 = length node"
    using iN PL P10 l5 by (simp add: b6_def)
  have h1: "holds b1 bt N es"
    unfolding b1_def using iN PL P10 by (intro holds_write_free [OF h]) (simp_all add: i_def)
  have h2: "holds b2 bt N es"
    unfolding b2_def using PL l1 by (intro holds_write_free [OF h1]) (simp_all add: P_def)
  have h3: "holds b3 bt N es"
    unfolding b3_def using PL l2 by (intro holds_write_free [OF h2]) (simp_all add: P_def)
  have h4: "holds b4 bt N es"
    unfolding b4_def using PL l3 by (intro holds_write_free [OF h3]) (simp_all add: P_def)
  have h5: "holds b5 bt N es"
    unfolding b5_def using PL l4 by (intro holds_write_free [OF h4]) (simp_all add: P_def)
  have h6: "holds b6 bt N es"
    unfolding b6_def using iN PL P10 l5 by (intro holds_write_free [OF h5]) (simp_all add: i_def)
  \<comment> \<open>the run of the code\<close>
  have b: "i < 65536" "N < 65536" "N < 6554"
    using iN PL P10 by simp_all
  have lt: "(of_nat i :: 16 word) < of_nat N"
    using b iN by (simp add: w16_less)
  have le: "(of_nat i + 1 :: 16 word) \<le> of_nat N"
    using b iN w16_le [of "i + 1" N] by (simp add: add.commute)
  have u1: "unat (4 + 8 * of_nat i :: 16 word) = 4 + 8 * i"
    using b iN w16 [of "4 + 8 * i"] by simp
  have s1: "setPtr node (of_nat i) p = Inr b1"
    using holds_header(2) [OF h] lt u1 iN PL P10
    by (simp add: setPtr_def PutUint64_at_ok b1_def)
  have kp: "kvPos b1 (of_nat i) = Inr (of_nat P)"
    using holds_kvPos [OF h1, of i] by (simp add: i_def P_def)
  have u: "unat (of_nat P + 0 :: 16 word) = P" "unat (of_nat P + 2 :: 16 word) = P + 2"
    "unat (of_nat P + 4 :: 16 word) = P + 4"
    "unat (of_nat P + 4 + of_nat (length k) :: 16 word) = P + 4 + length k"
    using PL by (simp_all add: w16 w16_add_num w16_add_num_add)
  have s2: "PutUint16_at b1 P (of_nat (length k)) = Inr b2"
    using PL l1 by (simp add: PutUint16_at_ok b2_def)
  have s3: "PutUint16_at b2 (P + 2) (of_nat (length v)) = Inr b3"
    using PL l2 by (simp add: PutUint16_at_ok b3_def)
  have s4: "copy_at b3 (P + 4) k = Inr b4"
    using PL l3 by (simp add: copy_at_ok b4_def)
  have s5: "copy_at b4 (P + 4 + length k) v = Inr b5"
    using PL l4 by (simp add: copy_at_ok b5_def)
  have go: "getOffset b5 (of_nat i) = Inr (of_nat (kv_size es))"
    using holds_getOffset [OF h5, of i] by (simp add: i_def)
  have u6: "unat (4 + 8 * of_nat N + 2 * (of_nat i + 1 - 1) :: 16 word) = 4 + 8 * N + 2 * i"
    using b iN w16 [of "4 + 8 * N + 2 * i"] by simp
  have eqv: "(of_nat (kv_size es) + 4 + of_nat (length k + length v) :: 16 word)
      = of_nat (kv_size es + (4 + length k + length v))"
    by simp
  have s6: "setOffset b5 (of_nat i + 1) (of_nat (kv_size es) + 4 + of_nat (length k + length v))
            = Inr b6"
    unfolding eqv
    using holds_header(2) [OF h5] le u6 iN PL P10 l5
    by (simp add: setOffset_def PutUint16_at_ok b6_def del: of_nat_add)
  have run: "nodeAppendKV node (of_nat (length es)) p k v = Inr b6"
    unfolding nodeAppendKV_def i_def [symmetric]
    by (simp only: s1 andThen_simps kp u s2 s3 s4 s5 go s6)
  \<comment> \<open>what the new slot holds\<close>
  have ptr: "read_at b6 (4 + 8 * i) 8 = le64 p"
  proof -
    have "read_at b6 (4 + 8 * i) 8 = read_at b5 (4 + 8 * i) 8"
      unfolding b6_def using iN l5 PL P10 by (intro read_at_write_disj) simp_all
    also have "\<dots> = read_at b4 (4 + 8 * i) 8"
      unfolding b5_def using iN l4 PL P10 by (intro read_at_write_disj) simp_all
    also have "\<dots> = read_at b3 (4 + 8 * i) 8"
      unfolding b4_def using iN l3 PL P10 by (intro read_at_write_disj) simp_all
    also have "\<dots> = read_at b2 (4 + 8 * i) 8"
      unfolding b3_def using iN l2 PL P10 by (intro read_at_write_disj) simp_all
    also have "\<dots> = read_at b1 (4 + 8 * i) 8"
      unfolding b2_def using iN l1 PL P10 by (intro read_at_write_disj) simp_all
    also have "\<dots> = le64 p"
      unfolding b1_def using iN PL P10 by (intro read_at_write_same) simp_all
    finally show ?thesis .
  qed
  have off: "read_at b6 (4 + 8 * N + 2 * i) 2
      = le16 (of_nat (kv_size es + (4 + length k + length v)))"
    unfolding b6_def using iN l5 PL P10 by (intro read_at_write_same) simp_all
  have klen: "read_at b6 P 2 = le16 (of_nat (length k))"
  proof -
    have "read_at b6 P 2 = read_at b5 P 2"
      unfolding b6_def using iN l5 PL P10 by (intro read_at_write_disj) simp_all
    also have "\<dots> = read_at b4 P 2"
      unfolding b5_def using l4 PL by (intro read_at_write_disj) simp_all
    also have "\<dots> = read_at b3 P 2"
      unfolding b4_def using l3 PL by (intro read_at_write_disj) simp_all
    also have "\<dots> = read_at b2 P 2"
      unfolding b3_def using l2 PL by (intro read_at_write_disj) simp_all
    also have "\<dots> = le16 (of_nat (length k))"
      unfolding b2_def using l1 PL by (intro read_at_write_same) simp_all
    finally show ?thesis .
  qed
  have vlen: "read_at b6 (P + 2) 2 = le16 (of_nat (length v))"
  proof -
    have "read_at b6 (P + 2) 2 = read_at b5 (P + 2) 2"
      unfolding b6_def using iN l5 PL P10 by (intro read_at_write_disj) simp_all
    also have "\<dots> = read_at b4 (P + 2) 2"
      unfolding b5_def using l4 PL by (intro read_at_write_disj) simp_all
    also have "\<dots> = read_at b3 (P + 2) 2"
      unfolding b4_def using l3 PL by (intro read_at_write_disj) simp_all
    also have "\<dots> = le16 (of_nat (length v))"
      unfolding b3_def using l2 PL by (intro read_at_write_same) simp_all
    finally show ?thesis .
  qed
  have key: "read_at b6 (P + 4) (length k) = k"
  proof -
    have "read_at b6 (P + 4) (length k) = read_at b5 (P + 4) (length k)"
      unfolding b6_def using iN l5 PL P10 by (intro read_at_write_disj) simp_all
    also have "\<dots> = read_at b4 (P + 4) (length k)"
      unfolding b5_def using l4 PL by (intro read_at_write_disj) simp_all
    also have "\<dots> = k"
      unfolding b4_def using l3 PL by (intro read_at_write_same) simp_all
    finally show ?thesis .
  qed
  have val: "read_at b6 (P + 4 + length k) (length v) = v"
  proof -
    have "read_at b6 (P + 4 + length k) (length v) = read_at b5 (P + 4 + length k) (length v)"
      unfolding b6_def using iN l5 PL P10 by (intro read_at_write_disj) simp_all
    also have "\<dots> = v"
      unfolding b5_def using l4 PL by (intro read_at_write_same) simp_all
    finally show ?thesis .
  qed
  have "read_at b6 P (2 + (2 + (length k + length v)))
      = read_at b6 P 2 @ read_at b6 (P + 2) 2 @ read_at b6 (P + 2 + 2) (length k)
        @ read_at b6 (P + 2 + 2 + length k) (length v)"
    by (simp only: read_at_split)
  moreover have "P + 2 + 2 = P + 4"
    by simp
  ultimately have "read_at b6 P (2 + (2 + (length k + length v)))
      = le16 (of_nat (length k)) @ le16 (of_nat (length v)) @ k @ v"
    by (simp only: klen vlen key val)
  moreover have "rec_size (p, k, v) = 2 + (2 + (length k + length v))"
    by (simp add: rec_size_def)
  moreover have "encode_rec (p, k, v)
      = le16 (of_nat (length k)) @ le16 (of_nat (length v)) @ k @ v"
    by (simp add: encode_rec_def)
  ultimately have kv:
    "read_at b6 (4 + 10 * N + kv_size es) (rec_size (p, k, v)) = encode_rec (p, k, v)"
    by (simp only: P_def)
  have "holds b6 bt N (es @ [(p, k, v)])"
    using n fit ptr off kv l6
    by (intro holds_snoc [OF h6]) (simp_all add: rec_size_def i_def)
  with run l6 show ?thesis by (rule that)
qed

section \<open>Mutator lemmas\<close>

lemma slots_take: "slots node src xs \<Longrightarrow> slots node src (take n xs)"
  by (simp add: slots_def)

lemma slots_drop:
  assumes "slots node 0 xs"
  shows "slots node (of_nat a) (drop a xs)"
  unfolding slots_def
proof (intro allI impI)
  fix j assume "j < length (drop a xs)"
  then have j: "a + j < length xs" by simp
  have w: "(of_nat a + of_nat j :: 16 word) = 0 + of_nat (a + j)" by simp
  show "getPtr node (of_nat a + of_nat j) = Inr (fst (drop a xs ! j)) \<and>
        getKey node (of_nat a + of_nat j) = Inr (fst (snd (drop a xs ! j))) \<and>
        getVal node (of_nat a + of_nat j) = Inr (snd (snd (drop a xs ! j)))"
    unfolding w using assms j by (simp add: slots_def del: of_nat_add)
qed

lemma holds_slots: "holds node bt N es \<Longrightarrow> slots node 0 es"
  by (simp add: slots_def holds_getPtr holds_getKey holds_getVal)

lemma holds_reads_as: "holds node bt N es \<Longrightarrow> length es = N \<Longrightarrow> reads_as node bt es"
  unfolding reads_as_def
  using holds_header [of node bt N es] holds_slots [of node bt N es] holds_N [of node bt N es]
  by simp

declare appendRange_loop.simps [simp del] lookup_loop.simps [simp del] split2_shrink.simps [simp del]

lemma appendRange_loop_holds:
  assumes rd: "slots old srcOld xs"
    and n: "length es + length xs \<le> N"
    and fit: "4 + 10 * N + kv_size es + kv_size xs \<le> L"
             "4 + 10 * N + kv_size es + kv_size xs < 65536"
  shows "c \<le> length xs \<Longrightarrow> holds new bt N (es @ take c xs) \<Longrightarrow> length new = L \<Longrightarrow>
    \<exists>b. appendRange_loop new old (of_nat (length es)) srcOld (of_nat (length xs)) (of_nat c) = Inr b
       \<and> length b = L \<and> holds b bt N (es @ xs)"
proof (induction "length xs - c" arbitrary: c new)
  case 0
  then have c: "c = length xs" by simp
  have "appendRange_loop new old (of_nat (length es)) srcOld (of_nat (length xs)) (of_nat c)
      = Inr new"
    by (subst appendRange_loop.simps) (simp add: c)
  with 0 c show ?case by simp
next
  case (Suc d)
  then have c: "c < length xs" by simp
  have b: "length xs < 65536" "c < 65536" "N < 6554"
    using n fit c by simp_all
  have lt: "(of_nat c :: 16 word) < of_nat (length xs)"
    using b c by (simp add: w16_less)
  obtain p k v where e: "xs ! c = (p, k, v)"
    by (cases "xs ! c") auto
  have r: "getPtr old (srcOld + of_nat c) = Inr p" "getKey old (srcOld + of_nat c) = Inr k"
    "getVal old (srcOld + of_nat c) = Inr v"
    using rd c e by (simp_all add: slots_def)
  have ks: "kv_size (take c xs) + (4 + length k + length v) \<le> kv_size xs"
    using kv_size_take_le [of "Suc c" xs] c by (simp add: kv_size_take_Suc e rec_size_def)
  have "length (es @ take c xs) < N"
    using n c by simp
  moreover have "4 + 10 * N + kv_size (es @ take c xs) + (4 + length k + length v) \<le> length new"
    using ks fit(1) Suc.prems(3) unfolding kv_size_append by linarith
  moreover have "4 + 10 * N + kv_size (es @ take c xs) + (4 + length k + length v) < 65536"
    using ks fit(2) unfolding kv_size_append by linarith
  ultimately obtain b1 where b1:
    "nodeAppendKV new (of_nat (length (es @ take c xs))) p k v = Inr b1"
    "length b1 = length new" "holds b1 bt N ((es @ take c xs) @ [(p, k, v)])"
    using nodeAppendKV_holds [OF Suc.prems(2), of k v p] by blast
  have t: "(es @ take c xs) @ [(p, k, v)] = es @ take (Suc c) xs"
    using c e by (simp add: take_Suc_conv_app_nth)
  have "Suc d = length xs - c" by (rule Suc.hyps)
  then have d: "d = length xs - Suc c" by simp
  have "Suc c \<le> length xs" using c by simp
  moreover have "holds b1 bt N (es @ take (Suc c) xs)"
    using b1(3) t by simp
  ultimately obtain b2 where b2:
    "appendRange_loop b1 old (of_nat (length es)) srcOld (of_nat (length xs)) (of_nat (Suc c))
       = Inr b2" "length b2 = length b1" "holds b2 bt N (es @ xs)"
    using Suc.hyps(1) [OF d, of b1] fit b1(2) Suc.prems(3) by auto
  have dst: "(of_nat (length es) + of_nat c :: 16 word) = of_nat (length (es @ take c xs))"
    using c by (simp add: min_def)
  have "appendRange_loop new old (of_nat (length es)) srcOld (of_nat (length xs)) (of_nat c)
      = Inr b2"
  proof -
    have w: "(of_nat (Suc c) :: 16 word) = of_nat c + 1" by simp
    show ?thesis
      apply (subst appendRange_loop.simps)
      using lt r b1(1) b2(1) [unfolded w] dst
      by (simp add: Let_def del: of_nat_add length_append of_nat_Suc)
  qed
  with b2 b1(2) Suc.prems(3) show ?case by simp
qed

lemma nodeAppendRange_holds:
  assumes h: "holds new bt N es"
    and rd: "slots old srcOld xs"
    and n: "length es + length xs \<le> N"
    and fit: "4 + 10 * N + kv_size es + kv_size xs \<le> length new" 
             "4 + 10 * N + kv_size es + kv_size xs < 65536"
  obtains b where "nodeAppendRange new old (of_nat (length es)) srcOld (of_nat (length xs)) = Inr b"
    "length b = length new" "holds b bt N (es @ xs)"
  using appendRange_loop_holds [OF rd n fit, of 0 new bt] h that
  by (auto simp: nodeAppendRange_def)

lemma leafInsert_holds:
  assumes nk: "nkeys old = Inr (of_nat (length es))"
    and rd: "slots old 0 es"
    and i: "i \<le> length es"
    and fit: "4 + 10 * Suc (length es) + kv_size es + (4 + length key + length val) \<le> length new"
             "4 + 10 * Suc (length es) + kv_size es + (4 + length key + length val) < 65536"
  obtains b where "leafInsert new old (of_nat i) key val = Inr b" "length b = length new"
    "holds b BNODE_LEAF (Suc (length es)) (take i es @ (0, key, val) # drop i es)"
proof -
  define N where "N = Suc (length es)"
  define L where "L = length new"
  have ks: "kv_size (take i es) + kv_size (drop i es) = kv_size es"
    by (metis append_take_drop_id kv_size_append)
  have c1: "4 + 10 * N \<le> length new" "4 + 10 * N < 65536"
    using fit by (simp_all add: N_def)
  obtain b1 where b1: "setHeader new BNODE_LEAF (of_nat N) = Inr b1" "length b1 = L"
    "holds b1 BNODE_LEAF N []"
    using setHeader_holds [OF c1, of BNODE_LEAF] unfolding L_def by blast
  have c2: "length ([] :: entry list) + length (take i es) \<le> N"
    "4 + 10 * N + kv_size [] + kv_size (take i es) \<le> length b1"
    "4 + 10 * N + kv_size [] + kv_size (take i es) < 65536"
    using ks fit i b1(2) by (simp_all add: N_def L_def)
  obtain b2 where b2: "nodeAppendRange b1 old (of_nat (length ([] :: entry list))) 0
       (of_nat (length (take i es))) = Inr b2"
    "length b2 = length b1" "holds b2 BNODE_LEAF N ([] @ take i es)"
    using nodeAppendRange_holds [OF b1(3) slots_take [OF rd, of i] c2] by blast
  have c3: "length ([] @ take i es) < N"
    "4 + 10 * N + kv_size ([] @ take i es) + (4 + length key + length val) \<le> length b2"
    "4 + 10 * N + kv_size ([] @ take i es) + (4 + length key + length val) < 65536"
    using ks fit i b1(2) b2(2) by (simp_all add: N_def L_def)
  obtain b3 where b3: "nodeAppendKV b2 (of_nat (length ([] @ take i es))) 0 key val = Inr b3"
    "length b3 = length b2" "holds b3 BNODE_LEAF N (([] @ take i es) @ [(0, key, val)])"
    using nodeAppendKV_holds [OF b2(3) c3, where p = 0] by blast
  have c4: "length (([] @ take i es) @ [(0, key, val)]) + length (drop i es) \<le> N"
    "4 + 10 * N + kv_size (([] @ take i es) @ [(0, key, val)]) + kv_size (drop i es) \<le> length b3"
    "4 + 10 * N + kv_size (([] @ take i es) @ [(0, key, val)]) + kv_size (drop i es) < 65536"
    using ks fit i b1(2) b2(2) b3(2) by (simp_all add: N_def L_def rec_size_def)
  obtain b4 where b4: "nodeAppendRange b3 old (of_nat (length (([] @ take i es) @ [(0, key, val)])))
       (of_nat i) (of_nat (length (drop i es))) = Inr b4"
    "length b4 = length b3" "holds b4 BNODE_LEAF N ((([] @ take i es) @ [(0, key, val)]) @ drop i es)"
    using nodeAppendRange_holds [OF b3(3) slots_drop [OF rd, of i] c4] by blast
  have w: "(of_nat (length es) + 1 :: 16 word) = of_nat N"
    by (simp add: N_def)
  have e1: "min (length es) i = i"
    using i by simp
  have e2: "(of_nat (length (([] @ take i es) @ [(0, key, val)])) :: 16 word) = of_nat i + 1"
    using i by simp
  have e3: "(of_nat (length (drop i es)) :: 16 word) = of_nat (length es) - of_nat i"
    using i by simp
  have r2: "nodeAppendRange b1 old 0 0 (of_nat i) = Inr b2"
    using b2(1) by (simp add: e1)
  have r3: "nodeAppendKV b2 (of_nat i) 0 key val = Inr b3"
    using b3(1) by (simp add: e1)
  have r4: "nodeAppendRange b3 old (of_nat i + 1) (of_nat i) (of_nat (length es) - of_nat i)
      = Inr b4"
    using b4(1) unfolding e2 e3 .
  have "leafInsert new old (of_nat i) key val = Inr b4"
    unfolding leafInsert_def nk andThen_simps w b1(1) r2 r3 r4 ..
  with b4(2,3) b3(2) b2(2) b1(2) show ?thesis
    by (intro that [of b4]) (simp_all add: N_def L_def)
qed

lemma leafUpdate_holds:
  assumes nk: "nkeys old = Inr (of_nat (length es))"
    and rd: "slots old 0 es"
    and i: "i < length es"
    and fit: "4 + 10 * length es + kv_size (take i es) + (4 + length key + length val)
                + kv_size (drop (Suc i) es) \<le> length new"
             "4 + 10 * length es + kv_size (take i es) + (4 + length key + length val)
                + kv_size (drop (Suc i) es) < 65536"
  obtains b where "leafUpdate new old (of_nat i) key val = Inr b" "length b = length new"
    "holds b BNODE_LEAF (length es) (es[i := (0, key, val)])"
proof -
  define N where "N = length es"
  define L where "L = length new"
  have c1: "4 + 10 * N \<le> length new" "4 + 10 * N < 65536"
    using fit by (simp_all add: N_def)
  obtain b1 where b1: "setHeader new BNODE_LEAF (of_nat N) = Inr b1" "length b1 = L"
    "holds b1 BNODE_LEAF N []"
    using setHeader_holds [OF c1, of BNODE_LEAF] unfolding L_def by blast
  have c2: "length ([] :: entry list) + length (take i es) \<le> N"
    "4 + 10 * N + kv_size [] + kv_size (take i es) \<le> length b1"
    "4 + 10 * N + kv_size [] + kv_size (take i es) < 65536"
    using fit i b1(2) by (simp_all add: N_def L_def)
  obtain b2 where b2: "nodeAppendRange b1 old (of_nat (length ([] :: entry list))) 0
       (of_nat (length (take i es))) = Inr b2"
    "length b2 = length b1" "holds b2 BNODE_LEAF N ([] @ take i es)"
    using nodeAppendRange_holds [OF b1(3) slots_take [OF rd, of i] c2] by blast
  have c3: "length ([] @ take i es) < N"
    "4 + 10 * N + kv_size ([] @ take i es) + (4 + length key + length val) \<le> length b2"
    "4 + 10 * N + kv_size ([] @ take i es) + (4 + length key + length val) < 65536"
    using fit i b1(2) b2(2) by (simp_all add: N_def L_def)
  obtain b3 where b3: "nodeAppendKV b2 (of_nat (length ([] @ take i es))) 0 key val = Inr b3"
    "length b3 = length b2" "holds b3 BNODE_LEAF N (([] @ take i es) @ [(0, key, val)])"
    using nodeAppendKV_holds [OF b2(3) c3, where p = 0] by blast
  have c4: "length (([] @ take i es) @ [(0, key, val)]) + length (drop (Suc i) es) \<le> N"
    "4 + 10 * N + kv_size (([] @ take i es) @ [(0, key, val)]) + kv_size (drop (Suc i) es)
       \<le> length b3"
    "4 + 10 * N + kv_size (([] @ take i es) @ [(0, key, val)]) + kv_size (drop (Suc i) es)
       < 65536"
    using fit i b1(2) b2(2) b3(2) by (simp_all add: N_def L_def rec_size_def)
  obtain b4 where b4: "nodeAppendRange b3 old (of_nat (length (([] @ take i es) @ [(0, key, val)])))
       (of_nat (Suc i)) (of_nat (length (drop (Suc i) es))) = Inr b4"
    "length b4 = length b3"
    "holds b4 BNODE_LEAF N ((([] @ take i es) @ [(0, key, val)]) @ drop (Suc i) es)"
    using nodeAppendRange_holds [OF b3(3) slots_drop [OF rd, of "Suc i"] c4] by blast
  have e1: "min (length es) i = i"
    using i by simp
  have e2: "(of_nat (length (([] @ take i es) @ [(0, key, val)])) :: 16 word) = of_nat i + 1"
    using i by simp
  have e3: "(of_nat (length (drop (Suc i) es)) :: 16 word) = of_nat (length es) - (of_nat i + 1)"
    using i by simp
  have e4: "(of_nat (Suc i) :: 16 word) = of_nat i + 1"
    by simp
  have r2: "nodeAppendRange b1 old 0 0 (of_nat i) = Inr b2"
    using b2(1) by (simp add: e1)
  have r3: "nodeAppendKV b2 (of_nat i) 0 key val = Inr b3"
    using b3(1) by (simp add: e1)
  have r4: "nodeAppendRange b3 old (of_nat i + 1) (of_nat i + 1)
       (of_nat (length es) - (of_nat i + 1)) = Inr b4"
    using b4(1) unfolding e2 e3 e4 .
  have "leafUpdate new old (of_nat i) key val = Inr b4"
    unfolding leafUpdate_def nk andThen_simps b1(1) [unfolded N_def] r2 r3 r4 ..
  moreover have "(([] @ take i es) @ [(0, key, val)]) @ drop (Suc i) es = es[i := (0, key, val)]"
    using i by (simp add: upd_conv_take_nth_drop)
  ultimately show ?thesis
    using b4(2,3) b3(2) b2(2) b1(2) by (intro that [of b4]) (simp_all add: N_def L_def)
qed

section \<open>The order of keys\<close>

lemma bytes_Compare_eq: "bytes_Compare a b = 0 \<longleftrightarrow> a = b"
  by (induction a b rule: bytes_Compare.induct) auto

lemma bytes_Compare_gt: "0 < bytes_Compare a b \<longleftrightarrow> bytes_Compare b a < 0"
  by (induction a b rule: bytes_Compare.induct) auto

lemma key_lt_irrefl: "\<not> key_lt a a"
  using bytes_Compare_eq [of a a] by (simp add: key_lt_def)

lemma key_lt_trans: "key_lt a b \<Longrightarrow> key_lt b c \<Longrightarrow> key_lt a c"
  unfolding key_lt_def
proof (induction a b arbitrary: c rule: bytes_Compare.induct)
  case 1
  then show ?case by simp
next
  case (2 y ys)
  then show ?case by (cases c) (auto split: if_splits)
next
  case (3 x xs)
  then show ?case by simp
next
  case (4 x xs y ys)
  then show ?case by (cases c) (auto split: if_splits)
qed

lemma key_lt_asym: "key_lt a b \<Longrightarrow> \<not> key_lt b a"
  using key_lt_trans key_lt_irrefl by blast

lemma appendKVs_holds:
  assumes fit: "length es + length xs \<le> N" "4 + 10 * N + kv_size es + kv_size xs \<le> L"
    "4 + 10 * N + kv_size es + kv_size xs < 65536"
  shows "holds new bt N es \<Longrightarrow> length new = L \<Longrightarrow>
    \<exists>b. appendKVs new (of_nat (length es)) xs = Inr b \<and> length b = L \<and> holds b bt N (es @ xs)"
  using fit
proof (induction xs arbitrary: new es)
  case Nil
  then show ?case by simp
next
  case (Cons x xs)
  obtain p k v where x: "x = (p, k, v)" by (cases x) auto
  have c: "length es < N" "4 + 10 * N + kv_size es + (4 + length k + length v) \<le> length new"
    "4 + 10 * N + kv_size es + (4 + length k + length v) < 65536"
    using Cons.prems by (simp_all add: x rec_size_def)
  obtain b1 where b1: "nodeAppendKV new (of_nat (length es)) p k v = Inr b1"
    "length b1 = length new" "holds b1 bt N (es @ [(p, k, v)])"
    using nodeAppendKV_holds [OF Cons.prems(1) c] by blast
  have "\<exists>b. appendKVs b1 (of_nat (length (es @ [(p, k, v)]))) xs = Inr b \<and> length b = L
      \<and> holds b bt N ((es @ [(p, k, v)]) @ xs)"
    using Cons.prems b1(2) by (intro Cons.IH [OF b1(3)]) (simp_all add: x)
  then show ?case
    using b1(1) by (simp add: x add.commute)
qed

lemma build_node_holds:
  assumes fit: "4 + 10 * length es + kv_size es \<le> length buf"
    "4 + 10 * length es + kv_size es < 65536"
  obtains node where "build_node buf bt es = Inr node" "length node = length buf"
    "holds node bt (length es) es"
proof -
  have c1: "4 + 10 * length es \<le> length buf" "4 + 10 * length es < 65536"
    using fit by simp_all
  obtain b1 where b1: "setHeader buf bt (of_nat (length es)) = Inr b1" "length b1 = length buf"
    "holds b1 bt (length es) []"
    using setHeader_holds [OF c1] by blast
  have "\<exists>b. appendKVs b1 (of_nat (length ([] :: entry list))) es = Inr b \<and> length b = length buf
      \<and> holds b bt (length es) ([] @ es)"
    using fit b1(2) by (intro appendKVs_holds [OF _ _ _ b1(3)]) simp_all
  then show ?thesis
    using b1(1) that by (auto simp: build_node_def)
qed

lemma kv_size_es3: "kv_size es3 = 24" "length es3 = 3"
  by (simp_all add: es3_def rec_size_def ascii_def)

lemma leaf3_holds: "holds leaf3 BNODE_LEAF 3 es3" "length leaf3 = BTREE_PAGE_SIZE"
proof -
  obtain node where n: "build_node (replicate BTREE_PAGE_SIZE 0) BNODE_LEAF es3 = Inr node"
    "length node = length (replicate BTREE_PAGE_SIZE (0 :: byte))" "holds node BNODE_LEAF (length es3) es3"
    by (rule build_node_holds [of es3 "replicate BTREE_PAGE_SIZE 0" BNODE_LEAF])
       (simp_all add: kv_size_es3)
  then show "holds leaf3 BNODE_LEAF 3 es3" "length leaf3 = BTREE_PAGE_SIZE"
    by (simp_all add: leaf3_def kv_size_es3)
qed

lemma sorted_wrt_insert_between:
  assumes s: "sorted_wrt key_lt ks" and i: "i \<le> length ks"
    and l: "0 < i \<longrightarrow> key_lt (ks ! (i - 1)) k"
    and r: "i < length ks \<longrightarrow> key_lt k (ks ! i)"
  shows "sorted_wrt key_lt (take i ks @ k # drop i ks)"
proof -
  have nth: "key_lt (ks ! a) (ks ! b)" if "a < b" "b < length ks" for a b
    using s that by (simp add: sorted_wrt_iff_nth_less)
  have left: "key_lt x k" if "x \<in> set (take i ks)" for x
  proof -
    from that obtain a where a: "a < i" "a < length ks" "x = ks ! a"
      by (auto simp: in_set_conv_nth)
    then have "0 < i" by simp
    with l have lk: "key_lt (ks ! (i - 1)) k" by simp
    show ?thesis
    proof (cases "a = i - 1")
      case True
      with lk a show ?thesis by simp
    next
      case False
      with a i have "key_lt (ks ! a) (ks ! (i - 1))"
        by (intro nth) simp_all
      with lk a show ?thesis by (auto intro: key_lt_trans)
    qed
  qed
  have right: "key_lt k y" if "y \<in> set (drop i ks)" for y
  proof -
    from that obtain b where "b < length ks - i" "y = ks ! (i + b)"
      by (auto simp: in_set_conv_nth)
    then have b: "i + b < length ks" "y = ks ! (i + b)"
      by simp_all
    then have "i < length ks" by simp
    with r have kr: "key_lt k (ks ! i)" by simp
    show ?thesis
    proof (cases "b = 0")
      case True
      with kr b show ?thesis by simp
    next
      case False
      with b have "key_lt (ks ! i) (ks ! (i + b))"
        by (intro nth) simp_all
      with kr b show ?thesis by (auto intro: key_lt_trans)
    qed
  qed
  have "sorted_wrt key_lt (take i ks @ drop i ks)"
    using s by simp
  then have parts: "sorted_wrt key_lt (take i ks)" "sorted_wrt key_lt (drop i ks)"
    "\<forall>x\<in>set (take i ks). \<forall>y\<in>set (drop i ks). key_lt x y"
    unfolding sorted_wrt_append by simp_all
  show ?thesis
    unfolding sorted_wrt_append using parts left right by auto
qed

lemma kv_size_update:
  "i < length es \<Longrightarrow>
   kv_size (es[i := e]) = kv_size (take i es) + rec_size e + kv_size (drop (Suc i) es)"
  by (simp add: upd_conv_take_nth_drop)

lemma copy_at_any:
  "pos \<le> length node \<Longrightarrow>
   copy_at node pos src = Inr (write_at node pos (take (length node - pos) src))"
  by (simp add: copy_at_def slice_from_def)

text \<open>An append for which only the key is known to fit: the value is stored as far as
  the buffer reaches, and the offset of the next slot counts all of it.\<close>

lemma nodeAppendKV_unchecked:
  assumes h: "holds node bt N es"
    and n: "length es < N"
    and fit: "4 + 10 * N + kv_size es + 4 + length k \<le> length node"
             "4 + 10 * N + kv_size es + (4 + length k + length v) < 65536"
  obtains b where "nodeAppendKV node (of_nat (length es)) p k v = Inr b"
    "length b = length node" "holds b bt N es"
    "getOffset b (of_nat (Suc (length es))) = Inr (of_nat (kv_size es + (4 + length k + length v)))"
    "read_at b (4 + 10 * N + kv_size es) 2 = le16 (of_nat (length k))"
    "read_at b (4 + 10 * N + kv_size es + 2) 2 = le16 (of_nat (length v))"
proof -
  define i where "i = length es"
  define P where "P = 4 + 10 * N + kv_size es"
  define L where "L = length node"
  define b1 where "b1 = write_at node (4 + 8 * i) (le64 p)"
  define b2 where "b2 = write_at b1 P (le16 (of_nat (length k)))"
  define b3 where "b3 = write_at b2 (P + 2) (le16 (of_nat (length v)))"
  define b4 where "b4 = write_at b3 (P + 4) k"
  define b5 where "b5 = write_at b4 (P + 4 + length k) (take (L - (P + 4 + length k)) v)"
  define b6 where "b6 = write_at b5 (4 + 8 * N + 2 * i)
                           (le16 (of_nat (kv_size es + (4 + length k + length v))))"
  have iN: "i < N" using n by (simp add: i_def)
  have PL: "P + 4 + length k \<le> L" "P + 4 + length k + length v < 65536"
    using fit by (simp_all add: P_def L_def)
  have P10: "4 + 10 * N \<le> P" by (simp add: P_def)
  have l1: "length b1 = L"
    using iN PL P10 by (simp add: b1_def L_def)
  have l2: "length b2 = L"
    using PL l1 by (simp add: b2_def)
  have l3: "length b3 = L"
    using PL l2 by (simp add: b3_def)
  have l4: "length b4 = L"
    using PL l3 by (simp add: b4_def)
  have l5: "length b5 = L"
    using PL l4 by (simp add: b5_def)
  have l6: "length b6 = L"
    using iN PL P10 l5 by (simp add: b6_def)
  have h1: "holds b1 bt N es"
    unfolding b1_def using iN PL P10
    by (intro holds_write_free [OF h]) (simp_all add: i_def L_def)
  have h2: "holds b2 bt N es"
    unfolding b2_def using PL l1 by (intro holds_write_free [OF h1]) (simp_all add: P_def)
  have h3: "holds b3 bt N es"
    unfolding b3_def using PL l2 by (intro holds_write_free [OF h2]) (simp_all add: P_def)
  have h4: "holds b4 bt N es"
    unfolding b4_def using PL l3 by (intro holds_write_free [OF h3]) (simp_all add: P_def)
  have h5: "holds b5 bt N es"
    unfolding b5_def using PL l4 by (intro holds_write_free [OF h4]) (simp_all add: P_def)
  have h6: "holds b6 bt N es"
    unfolding b6_def using iN PL P10 l5 by (intro holds_write_free [OF h5]) (simp_all add: i_def)
  have b: "i < 65536" "N < 65536" "N < 6554"
    using iN PL P10 by simp_all
  have lt: "(of_nat i :: 16 word) < of_nat N"
    using b iN by (simp add: w16_less)
  have le: "(of_nat i + 1 :: 16 word) \<le> of_nat N"
    using b iN w16_le [of "i + 1" N] by (simp add: add.commute)
  have u1: "unat (4 + 8 * of_nat i :: 16 word) = 4 + 8 * i"
    using b iN w16 [of "4 + 8 * i"] by simp
  have s1: "setPtr node (of_nat i) p = Inr b1"
    using holds_header(2) [OF h] lt u1 iN PL P10
    by (simp add: setPtr_def PutUint64_at_ok b1_def L_def)
  have kp: "kvPos b1 (of_nat i) = Inr (of_nat P)"
    using holds_kvPos [OF h1, of i] by (simp add: i_def P_def)
  have u: "unat (of_nat P + 0 :: 16 word) = P" "unat (of_nat P + 2 :: 16 word) = P + 2"
    "unat (of_nat P + 4 :: 16 word) = P + 4"
    "unat (of_nat P + 4 + of_nat (length k) :: 16 word) = P + 4 + length k"
    using PL by (simp_all add: w16 w16_add_num w16_add_num_add)
  have s2: "PutUint16_at b1 P (of_nat (length k)) = Inr b2"
    using PL l1 by (simp add: PutUint16_at_ok b2_def)
  have s3: "PutUint16_at b2 (P + 2) (of_nat (length v)) = Inr b3"
    using PL l2 by (simp add: PutUint16_at_ok b3_def)
  have s4: "copy_at b3 (P + 4) k = Inr b4"
    using PL l3 by (simp add: copy_at_ok b4_def)
  have s5: "copy_at b4 (P + 4 + length k) v = Inr b5"
    using PL l4 by (simp add: copy_at_any b5_def)
  have go: "getOffset b5 (of_nat i) = Inr (of_nat (kv_size es))"
    using holds_getOffset [OF h5, of i] by (simp add: i_def)
  have u6: "unat (4 + 8 * of_nat N + 2 * (of_nat i + 1 - 1) :: 16 word) = 4 + 8 * N + 2 * i"
    using b iN w16 [of "4 + 8 * N + 2 * i"] by simp
  have eqv: "(of_nat (kv_size es) + 4 + of_nat (length k + length v) :: 16 word)
      = of_nat (kv_size es + (4 + length k + length v))"
    by simp
  have s6: "setOffset b5 (of_nat i + 1) (of_nat (kv_size es) + 4 + of_nat (length k + length v))
            = Inr b6"
    unfolding eqv
    using holds_header(2) [OF h5] le u6 iN PL P10 l5
    by (simp add: setOffset_def PutUint16_at_ok b6_def del: of_nat_add)
  have run: "nodeAppendKV node (of_nat (length es)) p k v = Inr b6"
    unfolding nodeAppendKV_def i_def [symmetric]
    by (simp only: s1 andThen_simps kp u s2 s3 s4 s5 go s6)
  have off: "read_at b6 (4 + 8 * N + 2 * i) 2
      = le16 (of_nat (kv_size es + (4 + length k + length v)))"
    unfolding b6_def using iN l5 PL P10 by (intro read_at_write_same) simp_all
  have "unat (of_nat (Suc i) :: 16 word) = Suc i"
    using b iN by (intro w16) simp
  then have nz: "(of_nat (Suc i) :: 16 word) \<noteq> 0"
    by auto
  have u7: "unat (4 + 8 * of_nat N + 2 * (of_nat (Suc i) - 1) :: 16 word) = 4 + 8 * N + 2 * i"
    using u6 by simp
  have go6: "getOffset b6 (of_nat (Suc i)) = Inr (of_nat (kv_size es + (4 + length k + length v)))"
    using nz holds_header(2) [OF h6] u7 Uint16_read [OF off]
    by (simp add: getOffset_def del: of_nat_Suc of_nat_add)
  have "read_at b2 P 2 = le16 (of_nat (length k))"
    unfolding b2_def using PL l1 by (intro read_at_write_same) simp_all
  then have "read_at b3 P 2 = le16 (of_nat (length k))"
    unfolding b3_def using PL l2 by (subst read_at_write_disj) simp_all
  then have "read_at b4 P 2 = le16 (of_nat (length k))"
    unfolding b4_def using PL l3 by (subst read_at_write_disj) simp_all
  then have "read_at b5 P 2 = le16 (of_nat (length k))"
    unfolding b5_def using PL l4 by (subst read_at_write_disj) simp_all
  then have rk: "read_at b6 P 2 = le16 (of_nat (length k))"
    unfolding b6_def using iN PL P10 l5 by (subst read_at_write_disj) simp_all
  have "read_at b3 (P + 2) 2 = le16 (of_nat (length v))"
    unfolding b3_def using PL l2 by (intro read_at_write_same) simp_all
  then have "read_at b4 (P + 2) 2 = le16 (of_nat (length v))"
    unfolding b4_def using PL l3 by (subst read_at_write_disj) simp_all
  then have "read_at b5 (P + 2) 2 = le16 (of_nat (length v))"
    unfolding b5_def using PL l4 by (subst read_at_write_disj) simp_all
  then have rv: "read_at b6 (P + 2) 2 = le16 (of_nat (length v))"
    unfolding b6_def using iN PL P10 l5 by (subst read_at_write_disj) simp_all
  show ?thesis
    using run l6 h6 go6 rk rv by (intro that [of b6]) (simp_all add: i_def L_def P_def)
qed

section \<open>Search lemmas\<close>

lemma w16_mid:
  assumes "lo \<le> hi" "hi < 65536"
  shows "(of_nat lo + (of_nat hi - of_nat lo) div 2 :: 16 word) = of_nat (lo + (hi - lo) div 2)"
proof -
  have le: "(of_nat lo :: 16 word) \<le> of_nat hi"
    using assms by (simp add: w16_le)
  have "unat (of_nat lo + (of_nat hi - of_nat lo) div 2 :: 16 word)
      = unat (of_nat lo :: 16 word) + (unat (of_nat hi :: 16 word) - unat (of_nat lo :: 16 word)) div 2"
    using le by unat_arith
  also have "\<dots> = lo + (hi - lo) div 2"
    using assms by (simp add: w16)
  also have "\<dots> = unat (of_nat (lo + (hi - lo) div 2) :: 16 word)"
  proof -
    have "lo + (hi - lo) div 2 < 65536"
      using assms by simp
    then show ?thesis
      by (rule w16 [symmetric])
  qed
  finally show ?thesis
    by (simp only: word_unat_eq_iff)
qed

lemma w16_eq_0: "a < 65536 \<Longrightarrow> (of_nat a :: 16 word) = 0 \<longleftrightarrow> a = 0"
  using w16 [of a] by (auto simp: unat_eq_0 [symmetric] simp del: unat_eq_0)

lemma slots_getKey:
  "slots node 0 es \<Longrightarrow> i < length es \<Longrightarrow> getKey node (of_nat i) = Inr (fst (snd (es ! i)))"
  by (simp add: slots_def)

lemma ascending_nth:
  "ascending es \<Longrightarrow> a < b \<Longrightarrow> b < length es \<Longrightarrow>
   key_lt (fst (snd (es ! a))) (fst (snd (es ! b)))"
  by (simp add: ascending_def sorted_wrt_iff_nth_less)

lemma lookup_loop_finds:
  assumes rd: "slots node 0 es" and len: "length es < 65536"
    and asc: "ascending es" and j: "j < length es"
  shows "lo \<le> j \<Longrightarrow> j \<le> hi \<Longrightarrow> hi < length es \<Longrightarrow>
    lookup_loop node (fst (snd (es ! j))) (of_nat lo) (of_nat hi) = Inr (Return (of_nat j))"
proof (induction "hi - lo" arbitrary: lo hi rule: less_induct)
  case less
  define mid where "mid = lo + (hi - lo) div 2"
  define key where "key = fst (snd (es ! j))"
  have b: "lo \<le> hi" "hi < 65536" "lo \<le> mid" "mid \<le> hi" "mid < length es" "mid < 65536"
    using less.prems len by (simp_all add: mid_def)
  have le: "(of_nat lo :: 16 word) \<le> of_nat hi"
    using b by (simp add: w16_le)
  have m: "(of_nat lo + (of_nat hi - of_nat lo) div 2 :: 16 word) = of_nat mid"
    unfolding mid_def using b by (intro w16_mid)
  have gk: "getKey node (of_nat mid) = Inr (fst (snd (es ! mid)))"
    using rd b by (intro slots_getKey)
  consider "mid = j" | "mid < j" | "j < mid" by linarith
  then show ?case
  proof cases
    case 1
    then have "bytes_Compare (fst (snd (es ! mid))) key = 0"
      by (simp add: bytes_Compare_eq key_def)
    then show ?thesis
      using le m gk 1 by (subst lookup_loop.simps) (simp add: key_def [symmetric])
  next
    case 2
    then have c: "bytes_Compare (fst (snd (es ! mid))) key < 0"
      using ascending_nth [OF asc 2 j] by (simp add: key_lt_def key_def)
    have "lookup_loop node key (of_nat (Suc mid)) (of_nat hi) = Inr (Return (of_nat j))"
      unfolding key_def using 2 b less.prems by (intro less.hyps) simp_all
    then show ?thesis
      using le m gk c
      by (subst lookup_loop.simps) (simp add: key_def [symmetric] add.commute)
  next
    case 3
    then have "key_lt key (fst (snd (es ! mid)))"
      using ascending_nth [OF asc 3] b by (simp add: key_def)
    then have c: "0 < bytes_Compare (fst (snd (es ! mid))) key"
      by (simp add: bytes_Compare_gt key_lt_def)
    have nz: "(of_nat mid :: 16 word) \<noteq> 0"
      using 3 b by (simp add: w16_eq_0)
    have w: "(of_nat mid - 1 :: 16 word) = of_nat (mid - 1)"
      using 3 by simp
    have "lookup_loop node key (of_nat lo) (of_nat (mid - 1)) = Inr (Return (of_nat j))"
      unfolding key_def using 3 b less.prems by (intro less.hyps) simp_all
    then show ?thesis
      using le m gk c nz unfolding w [symmetric]
      by (subst lookup_loop.simps) (simp add: key_def [symmetric])
  qed
qed

lemma nodeLookupLE_finds:
  assumes r: "reads_as node bt es" and asc: "ascending es" and j: "j < length es"
  shows "nodeLookupLE node (fst (snd (es ! j))) = Inr (of_nat j)"
proof -
  from r have nk: "nkeys node = Inr (of_nat (length es))" and rd: "slots node 0 es"
    and len: "length es < 65536"
    by (simp_all add: reads_as_def)
  have nz: "(of_nat (length es) :: 16 word) \<noteq> 0"
    using j len by (auto simp: w16_eq_0)
  have w: "(of_nat (length es) - 1 :: 16 word) = of_nat (length es - 1)"
    using j by simp
  have "lookup_loop node (fst (snd (es ! j))) (of_nat 0) (of_nat (length es - 1))
      = Inr (Return (of_nat j))"
    using j by (intro lookup_loop_finds [OF rd len asc j]) simp_all
  then show ?thesis
    using nk nz unfolding w [symmetric] by (simp add: nodeLookupLE_def)
qed

lemma lookup_loop_total:
  assumes rd: "slots node 0 es" and len: "length es < 65536"
  shows "hi < length es \<Longrightarrow> lo \<le> Suc hi \<Longrightarrow>
    \<exists>r. lookup_loop node key (of_nat lo) (of_nat hi) = Inr r \<and>
        (case r of Return m \<Rightarrow> unat m < length es \<and> fst (snd (es ! unat m)) = key
                 | Fallthrough h \<Rightarrow> unat h < length es)"
proof (induction "Suc hi - lo" arbitrary: lo hi rule: less_induct)
  case less
  have hb: "hi < 65536" "unat (of_nat hi :: 16 word) = hi"
    using less.prems len by (simp_all add: w16)
  show ?case
  proof (cases "lo \<le> hi")
    case False
    then have "lo < 65536" using less.prems len by simp
    with False hb have "\<not> (of_nat lo :: 16 word) \<le> of_nat hi"
      by (simp add: w16_le)
    then have "lookup_loop node key (of_nat lo) (of_nat hi) = Inr (Fallthrough (of_nat hi))"
      by (subst lookup_loop.simps) simp
    then show ?thesis
      using hb less.prems by simp
  next
    case True
    define mid where "mid = lo + (hi - lo) div 2"
    have b: "lo \<le> mid" "mid \<le> hi" "mid < length es" "mid < 65536"
      using True less.prems len by (simp_all add: mid_def)
    have le: "(of_nat lo :: 16 word) \<le> of_nat hi"
      using True hb by (simp add: w16_le)
    have m: "(of_nat lo + (of_nat hi - of_nat lo) div 2 :: 16 word) = of_nat mid"
      unfolding mid_def using True hb by (intro w16_mid)
    have gk: "getKey node (of_nat mid) = Inr (fst (snd (es ! mid)))"
      using rd b by (intro slots_getKey)
    have um: "unat (of_nat mid :: 16 word) = mid"
      using b by (simp add: w16)
    define c where "c = bytes_Compare (fst (snd (es ! mid))) key"
    consider "c = 0" | "c < 0" | "0 < c" "mid = 0" | "0 < c" "mid \<noteq> 0" by linarith
    then show ?thesis
    proof cases
      case 1
      then have "lookup_loop node key (of_nat lo) (of_nat hi) = Inr (Return (of_nat mid))"
        using le m gk by (subst lookup_loop.simps) (simp add: c_def)
      moreover have "fst (snd (es ! mid)) = key"
        using 1 by (simp add: c_def bytes_Compare_eq)
      ultimately show ?thesis
        using um b by simp
    next
      case 2
      have "\<exists>r. lookup_loop node key (of_nat (Suc mid)) (of_nat hi) = Inr r \<and>
        (case r of Return m \<Rightarrow> unat m < length es \<and> fst (snd (es ! unat m)) = key
                 | Fallthrough h \<Rightarrow> unat h < length es)"
        using b less.prems by (intro less.hyps) simp_all
      moreover have "lookup_loop node key (of_nat lo) (of_nat hi)
          = lookup_loop node key (of_nat (Suc mid)) (of_nat hi)"
        using le m gk 2 by (subst lookup_loop.simps) (simp add: c_def add.commute)
      ultimately show ?thesis by simp
    next
      case 3
      then have "lookup_loop node key (of_nat lo) (of_nat hi) = Inr (Fallthrough (of_nat hi))"
        using le m gk by (subst lookup_loop.simps) (simp add: c_def)
      then show ?thesis
        using hb less.prems by simp
    next
      case 4
      have nz: "(of_nat mid :: 16 word) \<noteq> 0"
        using 4 b by (simp add: w16_eq_0)
      have w: "(of_nat mid - 1 :: 16 word) = of_nat (mid - 1)"
        using 4 by simp
      have "\<exists>r. lookup_loop node key (of_nat lo) (of_nat (mid - 1)) = Inr r \<and>
        (case r of Return m \<Rightarrow> unat m < length es \<and> fst (snd (es ! unat m)) = key
                 | Fallthrough h \<Rightarrow> unat h < length es)"
        using 4 b less.prems by (intro less.hyps) simp_all
      moreover have "lookup_loop node key (of_nat lo) (of_nat hi)
          = lookup_loop node key (of_nat lo) (of_nat (mid - 1))"
        using le m gk 4 nz unfolding w [symmetric]
        by (subst lookup_loop.simps) (simp add: c_def)
      ultimately show ?thesis by simp
    qed
  qed
qed

lemma nodeLookupLE_total:
  assumes r: "reads_as node bt es" and ne: "es \<noteq> []"
  shows "\<exists>idx. nodeLookupLE node key = Inr idx \<and> unat idx < length es"
proof -
  from r have nk: "nkeys node = Inr (of_nat (length es))" and rd: "slots node 0 es"
    and len: "length es < 65536"
    by (simp_all add: reads_as_def)
  have nz: "(of_nat (length es) :: 16 word) \<noteq> 0"
    using ne len by (auto simp: w16_eq_0)
  have w: "(of_nat (length es) - 1 :: 16 word) = of_nat (length es - 1)"
    using ne by (cases es) simp_all
  obtain lr where lr: "lookup_loop node key (of_nat 0) (of_nat (length es - 1)) = Inr lr"
    "case lr of Return m \<Rightarrow> unat m < length es \<and> fst (snd (es ! unat m)) = key
              | Fallthrough h \<Rightarrow> unat h < length es"
    using lookup_loop_total [OF rd len, of "length es - 1" 0 key] ne by auto
  show ?thesis
  proof (cases lr)
    case (Return m)
    then show ?thesis
      using lr nk nz unfolding w [symmetric] by (auto simp: nodeLookupLE_def)
  next
    case (Fallthrough h)
    then have "unat h < unat (of_nat (length es) :: 16 word)"
      using lr(2) len by (simp add: w16)
    then have "h < of_nat (length es)"
      by (simp add: word_less_nat_alt)
    then show ?thesis
      using Fallthrough lr nk nz unfolding w [symmetric]
      by (auto simp: nodeLookupLE_def)
  qed
qed

section \<open>Insertion into a leaf\<close>

lemma ascending_update:
  "j < length es \<Longrightarrow> fst (snd e) = fst (snd (es ! j)) \<Longrightarrow> ascending (es[j := e]) = ascending es"
proof -
  assume a: "j < length es" "fst (snd e) = fst (snd (es ! j))"
  have "(map (\<lambda>e. fst (snd e)) es)[j := fst (snd (es ! j))] = map (\<lambda>e. fst (snd e)) es"
    using a(1) by (simp add: list_update_same_conv)
  then show ?thesis
    using a by (simp add: ascending_def map_update)
qed

lemma kv_size_update_le:
  assumes "j < length es" "fst (snd (es ! j)) = k"
  shows "kv_size (es[j := (p, k, v)]) \<le> kv_size es + length v"
proof -
  have "kv_size es = kv_size (take j es) + rec_size (es ! j) + kv_size (drop (Suc j) es)"
    using kv_size_update [OF assms(1), of "es ! j"] by simp
  then show ?thesis
    using assms by (simp add: kv_size_update rec_size_def)
qed

lemma treeInsert_leaf_update:
  assumes r: "reads_as node BNODE_LEAF es" and asc: "ascending es" and j: "j < length es"
    and room: "4 + 10 * length es + kv_size (es[j := (0, fst (snd (es ! j)), val)])
                 \<le> 2 * BTREE_PAGE_SIZE"
  obtains b where "treeInsert tree s node (fst (snd (es ! j))) val = Some (Inr (b, s))"
    "length b = 2 * BTREE_PAGE_SIZE"
    "holds b BNODE_LEAF (length es) (es[j := (0, fst (snd (es ! j)), val)])"
proof -
  define key where "key = fst (snd (es ! j))"
  from r have nk: "nkeys node = Inr (of_nat (length es))" and rd: "slots node 0 es"
    and bt: "btype node = Inr BNODE_LEAF"
    by (simp_all add: reads_as_def)
  have lk: "nodeLookupLE node key = Inr (of_nat j)"
    unfolding key_def by (rule nodeLookupLE_finds [OF r asc j])
  have gk: "getKey node (of_nat j) = Inr key"
    unfolding key_def using rd j by (rule slots_getKey)
  have fit: "4 + 10 * length es + kv_size (take j es) + (4 + length key + length val)
                + kv_size (drop (Suc j) es) \<le> length (replicate (2 * BTREE_PAGE_SIZE) (0 :: byte))"
     "4 + 10 * length es + kv_size (take j es) + (4 + length key + length val)
                + kv_size (drop (Suc j) es) < 65536"
    using room j by (simp_all add: kv_size_update rec_size_def key_def)
  obtain b where b: "leafUpdate (replicate (2 * BTREE_PAGE_SIZE) 0) node (of_nat j) key val = Inr b"
    "length b = length (replicate (2 * BTREE_PAGE_SIZE) (0 :: byte))"
    "holds b BNODE_LEAF (length es) (es[j := (0, key, val)])"
    using leafUpdate_holds [OF nk rd j fit] by blast
  have "treeInsert tree s node key val = Some (Inr (b, s))"
    using b(1) by (subst treeInsert.simps) (simp add: lk bt gk)
  with b(2,3) show ?thesis
    unfolding key_def by (intro that [of b]) simp_all
qed

lemma treeInsert_vals_same_key:
  assumes j: "j < length es" and asc: "ascending es"
  shows "reads_as node BNODE_LEAF (es[j := (p, fst (snd (es ! j)), v)]) \<Longrightarrow> vals \<noteq> [] \<Longrightarrow>
    \<forall>val \<in> set vals. 4 + 10 * length es + kv_size (es[j := (0, fst (snd (es ! j)), val)])
                       \<le> 2 * BTREE_PAGE_SIZE \<Longrightarrow>
    \<exists>b. treeInsert_vals tree s node (fst (snd (es ! j))) vals = Some (Inr (b, s)) \<and>
        reads_as b BNODE_LEAF (es[j := (0, fst (snd (es ! j)), last vals)])"
proof (induction vals arbitrary: node p v)
  case Nil
  then show ?case by simp
next
  case (Cons val vals)
  define key where "key = fst (snd (es ! j))"
  define es' where "es' = es[j := (p, key, v)]"
  have e': "length es' = length es" "j < length es'" "fst (snd (es' ! j)) = key"
    "es'[j := (0, key, val)] = es[j := (0, key, val)]" "ascending es'"
    using j asc by (simp_all add: es'_def key_def ascending_update)
  have room: "4 + 10 * length es' + kv_size (es'[j := (0, fst (snd (es' ! j)), val)])
                 \<le> 2 * BTREE_PAGE_SIZE"
    using Cons.prems(3) e' by (simp add: key_def)
  have r: "reads_as node BNODE_LEAF es'"
    using Cons.prems(1) by (simp add: es'_def key_def)
  obtain b where b: "treeInsert tree s node (fst (snd (es' ! j))) val = Some (Inr (b, s))"
    "holds b BNODE_LEAF (length es') (es'[j := (0, fst (snd (es' ! j)), val)])"
    by (rule treeInsert_leaf_update [OF r e'(5) e'(2) room, of tree s])
  have rb: "reads_as b BNODE_LEAF (es[j := (0, key, val)])"
    using holds_reads_as [OF b(2)] e' by simp
  show ?case
  proof (cases vals)
    case Nil
    then show ?thesis
      using b(1) rb e' by (simp add: key_def)
  next
    case (Cons v' vs')
    then have "\<exists>b'. treeInsert_vals tree s b (fst (snd (es ! j))) vals = Some (Inr (b', s)) \<and>
        reads_as b' BNODE_LEAF (es[j := (0, fst (snd (es ! j)), last vals)])"
      using rb Cons.prems(3) by (intro Cons.IH [of b 0 val]) (simp_all add: key_def)
    then show ?thesis
      using b(1) e' Cons by (auto simp: key_def)
  qed
qed

lemma treeInsert_leaf_absent:
  assumes r: "reads_as node BNODE_LEAF es" and ne: "es \<noteq> []"
    and absent: "key \<notin> (\<lambda>e. fst (snd e)) ` set es"
  shows "\<exists>idx. nodeLookupLE node key = Inr idx \<and>
      treeInsert tree s node key val =
        Some (andThen (leafInsert (replicate (2 * BTREE_PAGE_SIZE) 0) node (idx + 1) key val)
               (\<lambda>new'. Inr (new', s)))"
proof -
  from r have rd: "slots node 0 es" and bt: "btype node = Inr BNODE_LEAF"
    by (simp_all add: reads_as_def)
  obtain idx where idx: "nodeLookupLE node key = Inr idx" "unat idx < length es"
    using nodeLookupLE_total [OF r ne] by blast
  have "getKey node (of_nat (unat idx)) = Inr (fst (snd (es ! unat idx)))"
    using rd idx(2) by (rule slots_getKey)
  moreover have "fst (snd (es ! unat idx)) \<noteq> key"
    using absent idx(2) by (metis image_eqI nth_mem)
  ultimately have "treeInsert tree s node key val =
        Some (andThen (leafInsert (replicate (2 * BTREE_PAGE_SIZE) 0) node (idx + 1) key val)
               (\<lambda>new'. Inr (new', s)))"
    by (subst treeInsert.simps) (simp add: idx(1) bt)
  with idx(1) show ?thesis by blast
qed

lemma es2_facts: "kv_size es2 = 16" "length es2 = 2"
  by (simp_all add: es2_def rec_size_def ascii_def)

lemma leaf2_holds: "holds leaf2 BNODE_LEAF 2 es2" "length leaf2 = BTREE_PAGE_SIZE"
proof -
  obtain node where n: "build_node (replicate BTREE_PAGE_SIZE 0) BNODE_LEAF es2 = Inr node"
    "length node = length (replicate BTREE_PAGE_SIZE (0 :: byte))" "holds node BNODE_LEAF (length es2) es2"
    by (rule build_node_holds [of es2 "replicate BTREE_PAGE_SIZE 0" BNODE_LEAF])
       (simp_all add: es2_facts)
  then show "holds leaf2 BNODE_LEAF 2 es2" "length leaf2 = BTREE_PAGE_SIZE"
    by (simp_all add: leaf2_def es2_facts)
qed

section \<open>Replacing a link\<close>

lemma length_kid_links [simp]: "length (fst (kid_links tree s kids)) = length kids"
proof (induction kids arbitrary: s)
  case Nil
  then show ?case by simp
next
  case (Cons kid kids)
  obtain p s1 where a: "tree_new tree kid s = (p, s1)"
    by (cases "tree_new tree kid s") auto
  obtain ls s2 where l: "kid_links tree s1 kids = (ls, s2)"
    by (cases "kid_links tree s1 kids") auto
  show ?case
    using Cons.IH [of s1] by (simp add: a l)
qed

lemma replaceKid_loop_holds:
  shows "holds new bt N xs \<Longrightarrow> length new = L \<Longrightarrow> \<forall>kid \<in> set kids. \<exists>k. getKey kid 0 = Inr k \<Longrightarrow>
    length xs + length kids \<le> N \<Longrightarrow>
    4 + 10 * N + kv_size xs + kv_size (fst (kid_links tree s kids)) \<le> L \<Longrightarrow>
    4 + 10 * N + kv_size xs + kv_size (fst (kid_links tree s kids)) < 65536 \<Longrightarrow>
    idx + of_nat c = (of_nat (length xs) :: 16 word) \<Longrightarrow>
    \<exists>b. replaceKid_loop tree s new idx c kids = Inr (b, snd (kid_links tree s kids)) \<and>
        length b = L \<and> holds b bt N (xs @ fst (kid_links tree s kids))"
proof (induction kids arbitrary: s new xs c)
  case Nil
  then show ?case by simp
next
  case (Cons kid kids)
  obtain p s1 where a: "tree_new tree kid s = (p, s1)"
    by (cases "tree_new tree kid s") auto
  obtain k where k: "getKey kid 0 = Inr k"
    using Cons.prems(3) by auto
  obtain ls s2 where l: "kid_links tree s1 kids = (ls, s2)"
    by (cases "kid_links tree s1 kids") auto
  have kl: "kid_links tree s (kid # kids) = ((p, k, []) # ls, s2)"
    by (simp add: a k l)
  have p5: "4 + 10 * N + kv_size xs + (4 + length k + kv_size ls) \<le> L"
    "4 + 10 * N + kv_size xs + (4 + length k + kv_size ls) < 65536"
    using Cons.prems(5,6) unfolding kl by (simp_all add: rec_size_def)
  have c: "length xs < N" "4 + 10 * N + kv_size xs + (4 + length k + length ([] :: byte list)) \<le> length new"
    "4 + 10 * N + kv_size xs + (4 + length k + length ([] :: byte list)) < 65536"
    using Cons.prems(2,4) p5 by simp_all
  obtain b1 where b1: "nodeAppendKV new (of_nat (length xs)) p k [] = Inr b1"
    "length b1 = length new" "holds b1 bt N (xs @ [(p, k, [])])"
    using nodeAppendKV_holds [OF Cons.prems(1) c] by blast
  have "\<exists>b. replaceKid_loop tree s1 b1 idx (Suc c) kids = Inr (b, snd (kid_links tree s1 kids)) \<and>
        length b = L \<and> holds b bt N ((xs @ [(p, k, [])]) @ fst (kid_links tree s1 kids))"
    using Cons.prems(2,3,4,7) p5 b1(2)
    by (intro Cons.IH [OF b1(3)]) (simp_all add: l rec_size_def add.commute)
  then show ?case
    using b1(1) Cons.prems(7) unfolding kl by (simp add: a k l)
qed

lemma nodeReplaceKidN_holds:
  assumes nk: "nkeys old = Inr (of_nat (length es))"
    and rd: "slots old 0 es"
    and i: "i < length es"
    and kids: "\<forall>kid \<in> set kids. \<exists>k. getKey kid 0 = Inr k"
    and fit: "4 + 10 * (length es + length kids - 1) + kv_size (take i es)
                + kv_size (fst (kid_links tree s kids)) + kv_size (drop (Suc i) es) \<le> length new"
             "4 + 10 * (length es + length kids - 1) + kv_size (take i es)
                + kv_size (fst (kid_links tree s kids)) + kv_size (drop (Suc i) es) < 65536"
  obtains b where "nodeReplaceKidN tree s new old (of_nat i) kids
                     = Inr (b, snd (kid_links tree s kids))"
    "length b = length new"
    "holds b BNODE_NODE (length es + length kids - 1)
       (take i es @ fst (kid_links tree s kids) @ drop (Suc i) es)"
proof -
  define N where "N = length es + length kids - 1"
  define L where "L = length new"
  define ls where "ls = fst (kid_links tree s kids)"
  have lls: "length ls = length kids"
    by (simp add: ls_def)
  have c1: "4 + 10 * N \<le> length new" "4 + 10 * N < 65536"
    using fit by (simp_all add: N_def)
  obtain b1 where b1: "setHeader new BNODE_NODE (of_nat N) = Inr b1" "length b1 = L"
    "holds b1 BNODE_NODE N []"
    using setHeader_holds [OF c1, of BNODE_NODE] unfolding L_def by blast
  have c2: "length ([] :: entry list) + length (take i es) \<le> N"
    "4 + 10 * N + kv_size [] + kv_size (take i es) \<le> length b1"
    "4 + 10 * N + kv_size [] + kv_size (take i es) < 65536"
    using fit i b1(2) by (simp_all add: N_def L_def)
  obtain b2 where b2: "nodeAppendRange b1 old (of_nat (length ([] :: entry list))) 0
       (of_nat (length (take i es))) = Inr b2"
    "length b2 = length b1" "holds b2 BNODE_NODE N ([] @ take i es)"
    using nodeAppendRange_holds [OF b1(3) slots_take [OF rd, of i] c2] by blast
  have e1: "min (length es) i = i"
    using i by simp
  have c3: "length ([] @ take i es) + length kids \<le> N"
    "4 + 10 * N + kv_size ([] @ take i es) + kv_size (fst (kid_links tree s kids)) \<le> L"
    "4 + 10 * N + kv_size ([] @ take i es) + kv_size (fst (kid_links tree s kids)) < 65536"
    "of_nat i + of_nat 0 = (of_nat (length ([] @ take i es)) :: 16 word)"
    using fit i by (simp_all add: N_def L_def e1)
  obtain b3 where b3: "replaceKid_loop tree s b2 (of_nat i) 0 kids
        = Inr (b3, snd (kid_links tree s kids))"
    "length b3 = L" "holds b3 BNODE_NODE N (([] @ take i es) @ ls)"
    using replaceKid_loop_holds [OF b2(3) _ kids c3] b2(2) b1(2) unfolding ls_def by auto
  have c4: "length (([] @ take i es) @ ls) + length (drop (Suc i) es) \<le> N"
    "4 + 10 * N + kv_size (([] @ take i es) @ ls) + kv_size (drop (Suc i) es) \<le> length b3"
    "4 + 10 * N + kv_size (([] @ take i es) @ ls) + kv_size (drop (Suc i) es) < 65536"
    using fit i b3(2) by (simp_all add: N_def L_def lls e1 ls_def)
  obtain b4 where b4: "nodeAppendRange b3 old (of_nat (length (([] @ take i es) @ ls)))
       (of_nat (Suc i)) (of_nat (length (drop (Suc i) es))) = Inr b4"
    "length b4 = length b3"
    "holds b4 BNODE_NODE N ((([] @ take i es) @ ls) @ drop (Suc i) es)"
    using nodeAppendRange_holds [OF b3(3) slots_drop [OF rd, of "Suc i"] c4] by blast
  have w: "(of_nat (length es) + of_nat (length kids) - 1 :: 16 word) = of_nat N"
    using i by (simp add: N_def)
  have e2: "(of_nat (length (([] @ take i es) @ ls)) :: 16 word) = of_nat i + of_nat (length kids)"
    using i by (simp add: lls)
  have e3: "(of_nat (length (drop (Suc i) es)) :: 16 word) = of_nat (length es) - (of_nat i + 1)"
    using i by simp
  have e4: "(of_nat (Suc i) :: 16 word) = of_nat i + 1"
    by simp
  have r2: "nodeAppendRange b1 old 0 0 (of_nat i) = Inr b2"
    using b2(1) by (simp add: e1)
  have r4: "nodeAppendRange b3 old (of_nat i + of_nat (length kids)) (of_nat i + 1)
       (of_nat (length es) - (of_nat i + 1)) = Inr b4"
    using b4(1) unfolding e2 e3 e4 .
  have "nodeReplaceKidN tree s new old (of_nat i) kids = Inr (b4, snd (kid_links tree s kids))"
    unfolding nodeReplaceKidN_def Let_def nk andThen_simps w b1(1) r2 b3(1) prod.case r4 ..
  with b4(2,3) b3(2) show ?thesis
    by (intro that [of b4]) (simp_all add: N_def L_def ls_def)
qed

lemma es_inner_facts: "kv_size es_inner = 12" "length es_inner = 2"
  by (simp_all add: es_inner_def rec_size_def ascii_def)

lemma inner2_holds: "holds inner2 BNODE_NODE 2 es_inner"
proof -
  obtain node where n: "build_node (replicate BTREE_PAGE_SIZE 0) BNODE_NODE es_inner = Inr node"
    "holds node BNODE_NODE (length es_inner) es_inner"
    by (rule build_node_holds [of es_inner "replicate BTREE_PAGE_SIZE 0" BNODE_NODE])
       (simp_all add: es_inner_facts)
  then show ?thesis
    by (simp add: inner2_def es_inner_facts)
qed

lemma kid_links_example:
  "kid_links list_store [] [leaf2, leaf3]
     = ([(1, ascii ''k1'', []), (2, ascii ''k1'', [])], [leaf2, leaf3])"
proof -
  have "getKey leaf2 0 = Inr (ascii ''k1'')"
    using holds_getKey [OF leaf2_holds(1), of 0] by (simp add: es2_def)
  moreover have "getKey leaf3 0 = Inr (ascii ''k1'')"
    using holds_getKey [OF leaf3_holds(1), of 0] by (simp add: es3_def)
  ultimately show ?thesis
    by (simp add: list_store_def)
qed

section \<open>Appends that return, whatever the room\<close>

lemma andThen_Inr: "andThen m f = Inr y \<longleftrightarrow> (\<exists>x. m = Inr x \<and> f x = Inr y)"
  by (cases m) simp_all

lemma PutUint16_at_Inr:
  "PutUint16_at node pos v = Inr b \<Longrightarrow> pos + 2 \<le> length node \<and> b = write_at node pos (le16 v)"
  by (auto simp: PutUint16_at_def slice_from_def split: if_splits)

lemma PutUint64_at_Inr:
  "PutUint64_at node pos v = Inr b \<Longrightarrow> pos + 8 \<le> length node \<and> b = write_at node pos (le64 v)"
  by (auto simp: PutUint64_at_def slice_from_def split: if_splits)

lemma copy_at_Inr:
  "copy_at node pos src = Inr b \<Longrightarrow>
   pos \<le> length node \<and> b = write_at node pos (take (length node - pos) src)"
  by (auto simp: copy_at_def slice_from_def split: if_splits)

lemma holds_tables: "holds node bt N es \<Longrightarrow> tables node bt N es"
  by (simp add: holds_def tables_def)

lemma tables_header:
  "tables node bt N es \<Longrightarrow> btype node = Inr bt"
  "tables node bt N es \<Longrightarrow> nkeys node = Inr (of_nat N)"
  by (auto simp: tables_def dest: header_read)

lemma tables_getOffset:
  assumes h: "tables node bt N es" and i: "i \<le> length es"
  shows "getOffset node (of_nat i) = Inr (of_nat (kv_size (take i es)))"
proof (cases i)
  case 0
  then show ?thesis by (simp add: getOffset_def)
next
  case (Suc j)
  with i have j: "j < length es" by simp
  from h j have N: "N < 6554" "j < N" "4 + 10 * N < 65536"
    by (simp_all add: tables_def)
  have "unat (of_nat (Suc j) :: 16 word) = Suc j"
    using N by (intro w16) simp
  then have nz: "(of_nat (Suc j) :: 16 word) \<noteq> 0"
    by auto
  have "(4 + 8 * of_nat N + 2 * (of_nat (Suc j) - 1) :: 16 word) = of_nat (4 + 8 * N + 2 * j)"
    by simp
  moreover have "unat (of_nat (4 + 8 * N + 2 * j) :: 16 word) = 4 + 8 * N + 2 * j"
    using N by (intro w16) simp
  moreover have "read_at node (4 + 8 * N + 2 * j) 2 = le16 (of_nat (kv_size (take (Suc j) es)))"
    using h j by (simp add: tables_def)
  ultimately show ?thesis
    using nz tables_header(2) [OF h] Suc
    by (simp add: getOffset_def Uint16_read del: of_nat_Suc of_nat_add of_nat_mult)
qed

lemma tables_kvPos:
  assumes h: "tables node bt N es" and i: "i \<le> length es"
  shows "kvPos node (of_nat i) = Inr (of_nat (4 + 10 * N + kv_size (take i es)))"
proof -
  from h i have b: "i < 65536" "N < 65536" "i \<le> N"
    by (simp_all add: tables_def)
  then have "(of_nat i :: 16 word) \<le> of_nat N"
    by (simp add: w16_le)
  then show ?thesis
    using tables_header(2) [OF h] tables_getOffset [OF h i]
    by (simp add: kvPos_def)
qed

lemma tables_nbytes:
  assumes h: "tables node bt N es" and n: "length es = N"
  shows "nbytes node = Inr (of_nat (4 + 10 * N + kv_size es))"
  using tables_header(2) [OF h] tables_kvPos [OF h, of N] n
  by (simp add: nbytes_def)

lemma tables_write_free:
  assumes h: "tables node bt N es"
    and free: "(4 \<le> q \<and> q + length bs \<le> 4 + 8 * N) \<or> 4 + 8 * N + 2 * length es \<le> q"
    and fit: "q + length bs \<le> length node"
  shows "tables (write_at node q bs) bt N es"
proof -
  from h have n: "length es \<le> N" by (simp add: tables_def)
  have hd: "read_at (write_at node q bs) 0 4 = read_at node 0 4"
    using free fit by (intro read_at_write_disj) auto
  have ent: "read_at (write_at node q bs) (4 + 8 * N + 2 * i) 2 = read_at node (4 + 8 * N + 2 * i) 2"
    if i: "i < length es" for i
    using free fit i n by (intro read_at_write_disj) auto
  show ?thesis
    using h unfolding tables_def hd by (simp add: ent)
qed

lemma tables_snoc:
  assumes h: "tables node bt N es"
    and n: "length es < N"
    and fit: "4 + 10 * N + kv_size es + rec_size e < 65536"
    and off: "read_at node (4 + 8 * N + 2 * length es) 2 = le16 (of_nat (kv_size es + rec_size e))"
  shows "tables node bt N (es @ [e])"
  unfolding tables_def
proof (intro conjI allI impI)
  fix i assume "i < length (es @ [e])"
  then consider "i < length es" | "i = length es" by fastforce
  then show "read_at node (4 + 8 * N + 2 * i) 2 = le16 (of_nat (kv_size (take (Suc i) (es @ [e]))))"
    using h off by cases (simp_all add: tables_def)
qed (use h n fit in \<open>simp_all add: tables_def\<close>)

lemma nodeAppendKV_tables:
  assumes h: "tables node bt N es"
    and n: "length es < N"
    and fit: "4 + 10 * N + kv_size es + (4 + length k + length v) < 65536"
    and run: "nodeAppendKV node (of_nat (length es)) p k v = Inr b"
  shows "tables b bt N (es @ [(p, k, v)]) \<and> length b = length node"
proof -
  define i where "i = length es"
  define P where "P = 4 + 10 * N + kv_size es"
  define L where "L = length node"
  have iN: "i < N" using n by (simp add: i_def)
  have P10: "4 + 10 * N \<le> P" "P + 4 + length k + length v < 65536"
    using fit by (simp_all add: P_def)
  have bd: "i < 65536" "N < 65536" "N < 6554"
    using iN P10 by simp_all
  have lt: "(of_nat i :: 16 word) < of_nat N"
    using bd iN by (simp add: w16_less)
  have le: "(of_nat i + 1 :: 16 word) \<le> of_nat N"
    using bd iN w16_le [of "i + 1" N] by (simp add: add.commute)
  have u1: "unat (4 + 8 * of_nat i :: 16 word) = 4 + 8 * i"
    using bd iN w16 [of "4 + 8 * i"] by simp
  have u: "unat (of_nat P + 0 :: 16 word) = P" "unat (of_nat P + 2 :: 16 word) = P + 2"
    "unat (of_nat P + 4 :: 16 word) = P + 4"
    "unat (of_nat P + 4 + of_nat (length k) :: 16 word) = P + 4 + length k"
    using P10 by (simp_all add: w16 w16_add_num w16_add_num_add)
  have u6: "unat (4 + 8 * of_nat N + 2 * (of_nat i + 1 - 1) :: 16 word) = 4 + 8 * N + 2 * i"
    using bd iN w16 [of "4 + 8 * N + 2 * i"] by simp
  have eqv: "(of_nat (kv_size es) + 4 + of_nat (length k + length v) :: 16 word)
      = of_nat (kv_size es + (4 + length k + length v))"
    by simp
  from run obtain b1 where s1: "setPtr node (of_nat i) p = Inr b1"
    and run1: "andThen (kvPos b1 (of_nat i)) (\<lambda>pos.
     andThen (PutUint16_at b1 (unat (pos + 0)) (of_nat (length k))) (\<lambda>new2.
     andThen (PutUint16_at new2 (unat (pos + 2)) (of_nat (length v))) (\<lambda>new3.
     andThen (copy_at new3 (unat (pos + 4)) k) (\<lambda>new4.
     andThen (copy_at new4 (unat (pos + 4 + of_nat (length k))) v) (\<lambda>new5.
     andThen (getOffset new5 (of_nat i)) (\<lambda>off.
     setOffset new5 (of_nat i + 1) (off + 4 + of_nat (length k + length v)))))))) = Inr b"
    unfolding nodeAppendKV_def i_def [symmetric] andThen_Inr by blast
  have "PutUint64_at node (4 + 8 * i) p = Inr b1"
    using s1 tables_header(2) [OF h] lt u1 by (simp add: setPtr_def)
  then have b1: "4 + 8 * i + 8 \<le> L" "b1 = write_at node (4 + 8 * i) (le64 p)"
    using PutUint64_at_Inr [of node "4 + 8 * i" p b1] by (simp_all add: L_def)
  have h1: "tables b1 bt N es" and l1: "length b1 = L"
    unfolding b1(2) using b1(1) iN
    by (intro tables_write_free [OF h], simp_all add: L_def)
  have kp: "kvPos b1 (of_nat i) = Inr (of_nat P)"
    using tables_kvPos [OF h1, of i] by (simp add: i_def P_def)
  from run1 obtain b2 b3 b4 b5 where
    s2: "PutUint16_at b1 P (of_nat (length k)) = Inr b2" and
    s3: "PutUint16_at b2 (P + 2) (of_nat (length v)) = Inr b3" and
    s4: "copy_at b3 (P + 4) k = Inr b4" and
    s5: "copy_at b4 (P + 4 + length k) v = Inr b5" and
    run5: "andThen (getOffset b5 (of_nat i)) (\<lambda>off.
       setOffset b5 (of_nat i + 1) (off + 4 + of_nat (length k + length v))) = Inr b"
    unfolding kp andThen_simps u andThen_Inr by blast
  have b2: "P + 2 \<le> length b1" "b2 = write_at b1 P (le16 (of_nat (length k)))"
    using PutUint16_at_Inr [OF s2] by simp_all
  have h2: "tables b2 bt N es" and l2: "length b2 = L"
    unfolding b2(2) using b2(1) P10 iN l1
    by (intro tables_write_free [OF h1], simp_all add: i_def)
  have b3: "P + 2 + 2 \<le> length b2" "b3 = write_at b2 (P + 2) (le16 (of_nat (length v)))"
    using PutUint16_at_Inr [OF s3] by simp_all
  have h3: "tables b3 bt N es" and l3: "length b3 = L"
    unfolding b3(2) using b3(1) P10 iN l2
    by (intro tables_write_free [OF h2], simp_all add: i_def)
  have b4: "P + 4 \<le> length b3" "b4 = write_at b3 (P + 4) (take (length b3 - (P + 4)) k)"
    using copy_at_Inr [OF s4] by simp_all
  have h4: "tables b4 bt N es" and l4: "length b4 = L"
    unfolding b4(2) using b4(1) P10 iN l3
    by (intro tables_write_free [OF h3], simp_all add: i_def)
  have b5: "P + 4 + length k \<le> length b4"
    "b5 = write_at b4 (P + 4 + length k) (take (length b4 - (P + 4 + length k)) v)"
    using copy_at_Inr [OF s5] by simp_all
  have h5: "tables b5 bt N es" and l5: "length b5 = L"
    unfolding b5(2) using b5(1) P10 iN l4
    by (intro tables_write_free [OF h4], simp_all add: i_def)
  have go: "getOffset b5 (of_nat i) = Inr (of_nat (kv_size es))"
    using tables_getOffset [OF h5, of i] by (simp add: i_def)
  have "setOffset b5 (of_nat i + 1) (of_nat (kv_size es + (4 + length k + length v))) = Inr b"
    using run5 unfolding go andThen_simps eqv .
  then have "PutUint16_at b5 (4 + 8 * N + 2 * i) (of_nat (kv_size es + (4 + length k + length v)))
      = Inr b"
    using tables_header(2) [OF h5] le u6 by (simp add: setOffset_def del: of_nat_add)
  then have b6: "4 + 8 * N + 2 * i + 2 \<le> length b5"
    "b = write_at b5 (4 + 8 * N + 2 * i) (le16 (of_nat (kv_size es + (4 + length k + length v))))"
    using PutUint16_at_Inr [of b5 "4 + 8 * N + 2 * i" _ b] by simp_all
  have h6: "tables b bt N es" and l6: "length b = L"
    unfolding b6(2) using b6(1) l5
    by (intro tables_write_free [OF h5], simp_all add: i_def)
  have off: "read_at b (4 + 8 * N + 2 * i) 2
      = le16 (of_nat (kv_size es + (4 + length k + length v)))"
    unfolding b6(2) using b6(1) by (intro read_at_write_same) simp_all
  have "tables b bt N (es @ [(p, k, v)])"
    using n fit off by (intro tables_snoc [OF h6]) (simp_all add: rec_size_def i_def)
  with l6 show ?thesis by (simp add: L_def)
qed

lemma appendRange_loop_tables:
  assumes rd: "slots old srcOld xs"
    and n: "length es + length xs \<le> N"
    and fit: "4 + 10 * N + kv_size es + kv_size xs < 65536"
  shows "c \<le> length xs \<Longrightarrow> tables new bt N (es @ take c xs) \<Longrightarrow>
    appendRange_loop new old (of_nat (length es)) srcOld (of_nat (length xs)) (of_nat c) = Inr b \<Longrightarrow>
    tables b bt N (es @ xs) \<and> length b = length new"
proof (induction "length xs - c" arbitrary: c new)
  case 0
  then have c: "c = length xs" by simp
  have "appendRange_loop new old (of_nat (length es)) srcOld (of_nat (length xs)) (of_nat c)
      = Inr new"
    by (subst appendRange_loop.simps) (simp add: c)
  with 0 c show ?case by simp
next
  case (Suc d)
  then have c: "c < length xs" by simp
  have bd: "length xs < 65536" "c < 65536" "N < 6554"
    using n fit c by simp_all
  have lt: "(of_nat c :: 16 word) < of_nat (length xs)"
    using bd c by (simp add: w16_less)
  obtain p k v where e: "xs ! c = (p, k, v)"
    by (cases "xs ! c") auto
  have r: "getPtr old (srcOld + of_nat c) = Inr p" "getKey old (srcOld + of_nat c) = Inr k"
    "getVal old (srcOld + of_nat c) = Inr v"
    using rd c e by (simp_all add: slots_def)
  have ks: "kv_size (take c xs) + (4 + length k + length v) \<le> kv_size xs"
    using kv_size_take_le [of "Suc c" xs] c by (simp add: kv_size_take_Suc e rec_size_def)
  have dst: "(of_nat (length es) + of_nat c :: 16 word) = of_nat (length (es @ take c xs))"
    using c by (simp add: min_def)
  have w: "(of_nat c + 1 :: 16 word) = of_nat (Suc c)" by simp
  have "andThen (nodeAppendKV new (of_nat (length (es @ take c xs))) p k v) (\<lambda>new'.
          appendRange_loop new' old (of_nat (length es)) srcOld (of_nat (length xs)) (of_nat (Suc c)))
        = Inr b"
    using Suc.prems(3) lt r
    by (subst (asm) appendRange_loop.simps)
       (simp add: Let_def dst w del: of_nat_add length_append of_nat_Suc)
  then obtain b1 where b1: "nodeAppendKV new (of_nat (length (es @ take c xs))) p k v = Inr b1"
    "appendRange_loop b1 old (of_nat (length es)) srcOld (of_nat (length xs)) (of_nat (Suc c)) = Inr b"
    unfolding andThen_Inr by blast
  have c1: "length (es @ take c xs) < N"
    using n c by simp
  have c2: "4 + 10 * N + kv_size (es @ take c xs) + (4 + length k + length v) < 65536"
    using ks fit unfolding kv_size_append by linarith
  have t1: "tables b1 bt N ((es @ take c xs) @ [(p, k, v)])" "length b1 = length new"
    using nodeAppendKV_tables [OF Suc.prems(2) c1 c2 b1(1)] by simp_all
  have t: "(es @ take c xs) @ [(p, k, v)] = es @ take (Suc c) xs"
    using c e by (simp add: take_Suc_conv_app_nth)
  have "Suc d = length xs - c" by (rule Suc.hyps)
  then have d: "d = length xs - Suc c" by simp
  have "tables b bt N (es @ xs) \<and> length b = length b1"
    using c t1(1) b1(2) unfolding t by (intro Suc.hyps(1) [OF d]) simp_all
  with t1(2) show ?case by simp
qed

lemma nodeAppendRange_tables:
  assumes h: "tables new bt N es"
    and rd: "slots old srcOld xs"
    and n: "length es + length xs \<le> N"
    and fit: "4 + 10 * N + kv_size es + kv_size xs < 65536"
    and run: "nodeAppendRange new old (of_nat (length es)) srcOld (of_nat (length xs)) = Inr b"
  shows "tables b bt N (es @ xs)" "length b = length new"
  using appendRange_loop_tables [OF rd n fit, of 0 new bt b] h run
  by (simp_all add: nodeAppendRange_def)

lemma setHeader_tables:
  assumes run: "setHeader buf bt (of_nat N) = Inr b" and fit: "4 + 10 * N < 65536"
  shows "tables b bt N []" "length b = length buf"
proof -
  have l: "4 \<le> length buf"
  proof (rule ccontr)
    assume "\<not> 4 \<le> length buf"
    then have "setHeader buf bt (of_nat N) \<noteq> Inr b"
      by (auto simp: setHeader_def slice_def PutUint16_at_def slice_from_def andThen_def
          write_at_def split: sum.splits if_splits)
    with run show False by simp
  qed
  then have b: "b = write_at (write_at buf 0 (le16 bt)) 2 (le16 (of_nat N))"
    using run by (simp add: setHeader_def slice_def PutUint16_at_ok)
  show "length b = length buf"
    using l by (simp add: b)
  have "read_at b 0 4 = le16 bt @ le16 (of_nat N)"
    using l by (simp add: b read_at_def write_at_def)
  then show "tables b bt N []"
    using fit by (simp add: tables_def)
qed

section \<open>The loops of the splitter\<close>

lemma kv_size_take_mono: "j \<le> k \<Longrightarrow> kv_size (take j es) \<le> kv_size (take k es)"
proof -
  assume "j \<le> k"
  then have "take j es = take j (take k es)"
    by (simp add: min_def)
  then show ?thesis
    using kv_size_take_le [of j "take k es"] by simp
qed

lemma left_size_mono: "j \<le> k \<Longrightarrow> left_size es j \<le> left_size es k"
  using kv_size_take_mono [of j k es] by (simp add: left_size_def)

lemma left_size_le: "k \<le> length es \<Longrightarrow> left_size es k \<le> 4 + 10 * length es + kv_size es"
  using kv_size_take_le [of k es] by (simp add: left_size_def)

lemma kv_size_ge: "4 * length es \<le> kv_size es"
  by (induction es) (simp_all add: rec_size_def)

lemma left_size_ge: "k \<le> length es \<Longrightarrow> 4 + 14 * k \<le> left_size es k"
  using kv_size_ge [of "take k es"] by (simp add: left_size_def)

lemma left_bytes_tables:
  assumes h: "tables old bt N es" and k: "k \<le> length es"
  shows "left_bytes old (of_nat k) = Inr (of_nat (left_size es k))"
  using tables_getOffset [OF h k] by (simp add: left_bytes_def left_size_def)

lemma split2_shrink_result:
  assumes h: "tables old bt N es"
  shows "k0 \<le> length es \<Longrightarrow>
    \<exists>m \<le> k0. split2_shrink old (of_nat k0) = Inr (of_nat m) \<and>
       left_size es m \<le> BTREE_PAGE_SIZE \<and>
       (\<forall>k. m < k \<and> k \<le> k0 \<longrightarrow> BTREE_PAGE_SIZE < left_size es k)"
proof (induction k0)
  case 0
  have "split2_shrink old (of_nat 0) = Inr (of_nat 0)"
    by (subst split2_shrink.simps) (simp add: left_bytes_def getOffset_def)
  then show ?case
    by (intro exI [of _ 0]) (auto simp: left_size_def)
next
  case (Suc k0)
  have lb: "left_bytes old (of_nat (Suc k0)) = Inr (of_nat (left_size es (Suc k0)))"
    using Suc.prems by (intro left_bytes_tables [OF h])
  have "left_size es (Suc k0) < 65536"
    using left_size_le [OF Suc.prems] h by (simp add: tables_def)
  then have u: "unat (of_nat (left_size es (Suc k0)) :: 16 word) = left_size es (Suc k0)"
    by (rule w16)
  show ?case
  proof (cases "BTREE_PAGE_SIZE < left_size es (Suc k0)")
    case False
    then have "split2_shrink old (of_nat (Suc k0)) = Inr (of_nat (Suc k0))"
      by (subst split2_shrink.simps) (simp add: lb u del: of_nat_Suc)
    with False show ?thesis
      by (intro exI [of _ "Suc k0"]) simp
  next
    case True
    have w: "(of_nat (Suc k0) - 1 :: 16 word) = of_nat k0" by simp
    from Suc obtain m where m: "m \<le> k0" "split2_shrink old (of_nat k0) = Inr (of_nat m)"
      "left_size es m \<le> BTREE_PAGE_SIZE"
      "\<forall>k. m < k \<and> k \<le> k0 \<longrightarrow> BTREE_PAGE_SIZE < left_size es k"
      by auto
    have "split2_shrink old (of_nat (Suc k0)) = split2_shrink old (of_nat k0)"
      using True by (subst split2_shrink.simps) (simp add: lb u w del: of_nat_Suc)
    with m True show ?thesis
      by (intro exI [of _ m]) (auto simp: le_Suc_eq)
  qed
qed

lemma right_bytes_tables:
  assumes h: "tables old bt N es" and k: "k \<le> length es"
  shows "right_bytes old (of_nat k) = Inr (of_nat N - of_nat (left_size es k) + 4)"
  using tables_header(2) [OF h] left_bytes_tables [OF h k] by (simp add: right_bytes_def)

text \<open>The second loop reads one offset per round, two bytes further each time, so
  within a buffer of two pages it ends: by leaving the loop or by a read out of range.\<close>

lemma split2_grow_ends:
  assumes nk: "nkeys old = Inr (of_nat N)" and N: "N < 6554"
    and len: "length old \<le> 2 * BTREE_PAGE_SIZE"
  shows "1 \<le> k \<Longrightarrow> 4 + 8 * N + 2 * (k - 1) \<le> length old + 2 \<Longrightarrow>
    \<exists>r. split2_grow old (of_nat k) = Some r \<and>
       (\<forall>nl. r = Inr nl \<longrightarrow> k \<le> unat nl \<and>
          (\<exists>rb. right_bytes old nl = Inr rb \<and> unat rb \<le> BTREE_PAGE_SIZE))"
proof (induction "length old + 2 - (4 + 8 * N + 2 * (k - 1))" arbitrary: k rule: less_induct)
  case less
  define pos where "pos = 4 + 8 * N + 2 * (k - 1)"
  have kb: "k < 65536" "pos < 65536"
    using less.prems len N by (simp_all add: pos_def)
  have uk: "unat (of_nat k :: 16 word) = k"
    using kb by (simp add: w16)
  show ?case
  proof (cases "right_bytes old (of_nat k)")
    case (Inl e)
    then have "split2_grow old (of_nat k) = Some (Inl e)"
      by (subst split2_grow.simps) simp
    then show ?thesis by simp
  next
    case (Inr rb)
    show ?thesis
    proof (cases "BTREE_PAGE_SIZE < unat rb")
      case False
      then have "split2_grow old (of_nat k) = Some (Inr (of_nat k))"
        using Inr by (subst split2_grow.simps) simp
      with False Inr uk show ?thesis by simp
    next
      case True
      have nz: "(of_nat k :: 16 word) \<noteq> 0"
        using less.prems(1) kb by (simp add: w16_eq_0)
      have wp: "(4 + 8 * of_nat N + 2 * (of_nat k - 1) :: 16 word) = of_nat pos"
        using less.prems(1) by (simp add: pos_def)
      have up: "unat (of_nat pos :: 16 word) = pos"
        using kb by (simp add: w16)
      have "pos + 2 \<le> length old"
      proof (rule ccontr)
        assume "\<not> pos + 2 \<le> length old"
        moreover have "getOffset old (of_nat k) = andThen (slice_from old pos) Uint16"
          using nz unfolding getOffset_def nk andThen_simps Let_def wp up by simp
        ultimately have "getOffset old (of_nat k) = Inl OutOfRange"
          by (auto simp: slice_from_def Uint16_def)
        then have "right_bytes old (of_nat k) = Inl OutOfRange"
          using nk by (simp add: right_bytes_def left_bytes_def)
        with Inr show False by simp
      qed
      then have c: "4 + 8 * N + 2 * (Suc k - 1) \<le> length old + 2"
        "length old + 2 - (4 + 8 * N + 2 * (Suc k - 1)) < length old + 2 - (4 + 8 * N + 2 * (k - 1))"
        using less.prems(1) by (simp_all add: pos_def)
      have "\<exists>r. split2_grow old (of_nat (Suc k)) = Some r \<and>
       (\<forall>nl. r = Inr nl \<longrightarrow> Suc k \<le> unat nl \<and>
          (\<exists>rb. right_bytes old nl = Inr rb \<and> unat rb \<le> BTREE_PAGE_SIZE))"
        using c by (intro less.hyps) simp_all
      moreover have "split2_grow old (of_nat k) = split2_grow old (of_nat (Suc k))"
        using Inr True by (subst split2_grow.simps) (simp add: add.commute)
      ultimately show ?thesis by auto
    qed
  qed
qed

lemma w16_div2: "a < 65536 \<Longrightarrow> (of_nat a :: 16 word) div 2 = of_nat (a div 2)"
proof -
  assume a: "a < 65536"
  have "unat ((of_nat a :: 16 word) div 2) = unat (of_nat a :: 16 word) div unat (2 :: 16 word)"
    by (rule unat_div)
  also have "\<dots> = a div 2"
    using a by (simp add: w16)
  also have "\<dots> = unat (of_nat (a div 2) :: 16 word)"
    using a by (intro w16 [symmetric]) simp
  finally show ?thesis
    by (simp only: word_unat_eq_iff)
qed

lemma w16_sub_wrap:
  assumes "b \<le> 65536 + a"
  shows "(of_nat a - of_nat b + 4 :: 16 word) = of_nat (65536 + a + 4 - b)"
proof -
  have "(of_nat (65536 + a + 4 - b) + of_nat b :: 16 word) = of_nat (65536 + a + 4)"
    using assms by (simp flip: of_nat_add)
  also have "\<dots> = of_nat a + 4"
    by simp
  finally show ?thesis
    by (simp add: algebra_simps)
qed

lemma split2_build_Inr:
  assumes "split2_build left right old nleft = Inr (l, r)"
  obtains n bt left1 right1 rb where "nkeys old = Inr n" "nleft < n" "btype old = Inr bt"
    "setHeader left bt nleft = Inr left1" "setHeader right bt (n - nleft) = Inr right1"
    "nodeAppendRange left1 old 0 0 nleft = Inr l"
    "nodeAppendRange right1 old 0 nleft (n - nleft) = Inr r"
    "nbytes r = Inr rb" "unat rb \<le> BTREE_PAGE_SIZE"
  using assms unfolding split2_build_def Let_def andThen_Inr
  by (auto simp: Assert_def split: if_splits)

lemma split2_guess_tables:
  assumes h: "tables old bt N es" and full: "length es = N" and n2: "2 \<le> N"
  obtains m where "m \<le> N div 2" "left_size es m \<le> BTREE_PAGE_SIZE"
    "\<forall>k. m < k \<and> k \<le> N div 2 \<longrightarrow> BTREE_PAGE_SIZE < left_size es k"
    "split2_guess old = (if 1 \<le> m then Inr (of_nat m) else Inl AssertionFailed)"
proof -
  from h have Nb: "N < 65536" by (simp add: tables_def)
  have ge: "(2 :: 16 word) \<le> of_nat N"
    using n2 Nb w16_le [of 2 N] by simp
  have "N div 2 \<le> length es"
    using full by simp
  then obtain m where m: "m \<le> N div 2" "split2_shrink old (of_nat (N div 2)) = Inr (of_nat m)"
    "left_size es m \<le> BTREE_PAGE_SIZE"
    "\<forall>k. m < k \<and> k \<le> N div 2 \<longrightarrow> BTREE_PAGE_SIZE < left_size es k"
    using split2_shrink_result [OF h, of "N div 2"] by blast
  have "m < 65536" using m(1) Nb by simp
  then have "(1 :: 16 word) \<le> of_nat m \<longleftrightarrow> 1 \<le> m"
    using w16_le [of 1 m] by simp
  then have "split2_guess old = (if 1 \<le> m then Inr (of_nat m) else Inl AssertionFailed)"
    using tables_header(2) [OF h] ge m(2) Nb
    by (simp add: split2_guess_def w16_div2)
  with m(1,3,4) show ?thesis
    by (rule that)
qed

text \<open>
  The second loop of \<open>nodeSplit2\<close> compares \<open>old.nkeys() - left_bytes() + 4\<close> with the page
  size. For a node of at most two pages this 16-bit difference wraps around unless the left
  part is smaller than the key count, so the loop runs on past the key count, taking bytes
  of the records for offsets, until it leaves with some \<open>nleft\<close> or a read goes out of
  range. Where it leaves with \<open>nleft < nkeys\<close>, the right part is larger than a page.
\<close>

lemma nodeSplit2_never_returns:
  assumes h: "holds old bt N es" and full: "length es = N" and n2: "2 \<le> N"
    and big: "BTREE_PAGE_SIZE < 4 + 10 * N + kv_size es"
    and len: "length old \<le> 2 * BTREE_PAGE_SIZE"
  shows "\<exists>e. nodeSplit2 left right old = Some (Inl e)"
proof -
  have tb: "tables old bt N es"
    using h by (rule holds_tables)
  have nk: "nkeys old = Inr (of_nat N)" and bt: "btype old = Inr bt"
    using tables_header [OF tb] by simp_all
  have rd: "slots old 0 es"
    using h by (rule holds_slots)
  have sz: "4 + 10 * N + kv_size es \<le> 2 * BTREE_PAGE_SIZE"
    using h len by (simp add: holds_def)
  then have Nb: "N < 6554" and N8: "N \<le> 818" by simp_all
  obtain m where m: "m \<le> N div 2" "left_size es m \<le> BTREE_PAGE_SIZE"
    "\<forall>k. m < k \<and> k \<le> N div 2 \<longrightarrow> BTREE_PAGE_SIZE < left_size es k"
    "split2_guess old = (if 1 \<le> m then Inr (of_nat m) else Inl AssertionFailed)"
    using split2_guess_tables [OF tb full n2] by blast
  show ?thesis
  proof (cases "1 \<le> m")
    case False
    then show ?thesis
      using m(4) by (simp add: nodeSplit2_def)
  next
    case True
    have "4 + 10 * N + kv_size es \<le> length old"
      using h by (simp add: holds_def)
    moreover have "2 * m \<le> N"
      using m(1) by simp
    ultimately have "4 + 8 * N + 2 * (m - 1) \<le> length old + 2"
      by simp
    then obtain r where r: "split2_grow old (of_nat m) = Some r"
      "\<forall>nl. r = Inr nl \<longrightarrow> m \<le> unat nl \<and>
          (\<exists>rb. right_bytes old nl = Inr rb \<and> unat rb \<le> BTREE_PAGE_SIZE)"
      using split2_grow_ends [OF nk Nb len True] by blast
    show ?thesis
    proof (cases r)
      case (Inl e)
      then show ?thesis
        using m(4) True r(1) by (simp add: nodeSplit2_def)
    next
      case (Inr nl)
      then have run: "nodeSplit2 left right old = Some (split2_build left right old nl)"
        using m(4) True r(1) by (simp add: nodeSplit2_def)
      have "\<exists>e. split2_build left right old nl = Inl e"
      proof (cases "split2_build left right old nl")
        case (Inl e)
        then show ?thesis by blast
      next
        case (Inr lr)
        obtain l rr where lr: "lr = (l, rr)" by (cases lr) auto
        obtain n bt' left1 right1 rb where b: "nkeys old = Inr n" "nl < n" "btype old = Inr bt'"
          "setHeader right bt' (n - nl) = Inr right1"
          "nodeAppendRange right1 old 0 nl (n - nl) = Inr rr"
          "nbytes rr = Inr rb" "unat rb \<le> BTREE_PAGE_SIZE"
          using split2_build_Inr [OF Inr [unfolded lr]] by metis
        have n: "n = of_nat N" and bt': "bt' = bt"
          using b(1,3) nk bt by simp_all
        define k where "k = unat nl"
        have nl: "nl = of_nat k"
          by (simp add: k_def)
        have kN: "k < N"
          using b(2) Nb unfolding n k_def by (simp add: word_less_nat_alt w16)
        have mk: "m \<le> k"
          using r(2) \<open>r = Inr nl\<close> by (simp add: k_def)
        obtain rbv where rbv: "right_bytes old nl = Inr rbv" "unat rbv \<le> BTREE_PAGE_SIZE"
          using r(2) \<open>r = Inr nl\<close> by blast
        define LS where "LS = left_size es k"
        have LSb: "LS \<le> 2 * BTREE_PAGE_SIZE" "4 + 14 * k \<le> LS"
          using left_size_le [of k es] left_size_ge [of k es] kN full sz
          by (simp_all add: LS_def)
        have rbe: "rbv = of_nat N - of_nat LS + 4"
          using right_bytes_tables [OF tb, of k] rbv(1) kN full by (simp add: nl LS_def)
        have small: "LS \<le> N + 4"
        proof (rule ccontr)
          assume a: "\<not> LS \<le> N + 4"
          have "rbv = of_nat (65536 + N + 4 - LS)"
            unfolding rbe using LSb by (intro w16_sub_wrap) simp
          moreover have "unat (of_nat (65536 + N + 4 - LS) :: 16 word) = 65536 + N + 4 - LS"
            using a by (intro w16) simp
          ultimately have "unat rbv = 65536 + N + 4 - LS" by simp
          with rbv(2) LSb show False by simp
        qed
        have km: "k = m" "Suc m \<le> N div 2"
        proof -
          have "Suc k \<le> N div 2"
            using small LSb(2) True mk by simp
          moreover have "\<not> m < k"
          proof
            assume "m < k"
            with \<open>Suc k \<le> N div 2\<close> m(3) have "BTREE_PAGE_SIZE < left_size es k"
              by simp
            with small N8 show False by (simp add: LS_def)
          qed
          ultimately show "k = m" "Suc m \<le> N div 2"
            using mk by simp_all
        qed
        have next_big: "BTREE_PAGE_SIZE < left_size es (Suc m)"
          using m(3) km(2) by simp
        have mN: "m < length es"
          using kN km(1) full by simp
        have d: "drop m es = es ! m # drop (Suc m) es"
          using mN by (simp add: Cons_nth_drop_Suc)
        have a1: "kv_size (take (Suc m) es) = kv_size (take m es) + rec_size (es ! m)"
          using mN by (rule kv_size_take_Suc)
        have a2: "rec_size (es ! m) \<le> kv_size (drop m es)"
          by (simp add: d)
        define R where "R = 4 + 10 * (N - k) + kv_size (drop k es)"
        have "kv_size es = kv_size (take k es) + kv_size (drop k es)"
          by (metis append_take_drop_id kv_size_append)
        then have Rb: "R < 65536"
          using sz kN by (simp add: R_def)
        have "10 * (N - m) = 10 * N - 10 * m"
          by simp
        then have Rbig: "BTREE_PAGE_SIZE < R"
          using next_big small a1 a2 kN n2 unfolding R_def km(1) LS_def left_size_def
          by simp
        have w: "(of_nat N - of_nat k :: 16 word) = of_nat (N - k)"
          using kN by simp
        have t1: "tables right1 bt (N - k) []"
          using b(4) Nb unfolding n nl w bt' by (intro setHeader_tables(1)) simp_all
        have s: "slots old (of_nat k) (drop k es)"
          using rd by (rule slots_drop)
        have run2: "nodeAppendRange right1 old (of_nat (length ([] :: entry list))) (of_nat k)
            (of_nat (length (drop k es))) = Inr rr"
          using b(5) full unfolding n nl w by simp
        have t2: "tables rr bt (N - k) ([] @ drop k es)"
          using Rb full kN
          by (intro nodeAppendRange_tables(1) [OF t1 s _ _ run2]) (simp_all add: R_def)
        have "nbytes rr = Inr (of_nat R)"
          using tables_nbytes [OF t2] full kN by (simp add: R_def)
        then have "unat rb = R"
          using b(6) Rb by (simp add: w16)
        with b(7) Rbig show ?thesis by simp
      qed
      with run show ?thesis by auto
    qed
  qed
qed

lemma es_big_facts: "kv_size es_big = 6012" "length es_big = 2"
  by (simp_all add: es_big_def rec_size_def ascii_def)

lemma big2_holds: "holds big2 BNODE_LEAF 2 es_big" "length big2 = 2 * BTREE_PAGE_SIZE"
proof -
  obtain node where n: "build_node (replicate (2 * BTREE_PAGE_SIZE) 0) BNODE_LEAF es_big = Inr node"
    "length node = length (replicate (2 * BTREE_PAGE_SIZE) (0 :: byte))"
    "holds node BNODE_LEAF (length es_big) es_big"
    by (rule build_node_holds [of es_big "replicate (2 * BTREE_PAGE_SIZE) 0" BNODE_LEAF])
       (simp_all add: es_big_facts)
  then show "holds big2 BNODE_LEAF 2 es_big" "length big2 = 2 * BTREE_PAGE_SIZE"
    by (simp_all add: big2_def es_big_facts)
qed

lemma read_at_take: "q + m \<le> L \<Longrightarrow> read_at (take L node) q m = read_at node q m"
  by (simp add: read_at_def drop_take min_def)

lemma holds_take:
  assumes h: "holds node bt N es" and L: "4 + 10 * N + kv_size es \<le> L"
  shows "holds (take L node) bt N es"
proof -
  have ent: "read_at (take L node) (4 + 8 * i) 8 = read_at node (4 + 8 * i) 8"
    "read_at (take L node) (4 + 8 * N + 2 * i) 2 = read_at node (4 + 8 * N + 2 * i) 2"
    "read_at (take L node) (4 + 10 * N + kv_size (take i es)) (rec_size (es ! i))
       = read_at node (4 + 10 * N + kv_size (take i es)) (rec_size (es ! i))"
    if i: "i < length es" for i
  proof -
    have k: "kv_size (take i es) + rec_size (es ! i) \<le> kv_size es"
      using kv_size_take_le [of "Suc i" es] i by (simp add: kv_size_take_Suc)
    have n: "length es \<le> N" using h by (simp add: holds_def)
    show "read_at (take L node) (4 + 8 * i) 8 = read_at node (4 + 8 * i) 8"
      using L i n by (intro read_at_take) simp
    show "read_at (take L node) (4 + 8 * N + 2 * i) 2 = read_at node (4 + 8 * N + 2 * i) 2"
      using L i n by (intro read_at_take) simp
    show "read_at (take L node) (4 + 10 * N + kv_size (take i es)) (rec_size (es ! i))
       = read_at node (4 + 10 * N + kv_size (take i es)) (rec_size (es ! i))"
      using L k by (intro read_at_take) simp
  qed
  have hd: "read_at (take L node) 0 4 = read_at node 0 4"
    using L by (intro read_at_take) simp
  show ?thesis
    using h L unfolding holds_def hd by (simp add: ent)
qed

lemma nodeSplit3_fits:
  assumes h: "holds old bt N es" and full: "length es = N"
    and fits: "4 + 10 * N + kv_size es \<le> BTREE_PAGE_SIZE" and len: "BTREE_PAGE_SIZE \<le> length old"
  shows "nodeSplit3 old = Some (Inr (1, [take BTREE_PAGE_SIZE old, [], []]))"
proof -
  have "nbytes old = Inr (of_nat (4 + 10 * N + kv_size es))"
    using holds_nbytes [OF h full] .
  moreover have "unat (of_nat (4 + 10 * N + kv_size es) :: 16 word) = 4 + 10 * N + kv_size es"
    using fits by (intro w16) simp
  ultimately show ?thesis
    using fits len by (simp add: nodeSplit3_def slice_def)
qed

lemma nodeSplit3_oversized:
  assumes h: "holds old bt N es" and full: "length es = N"
    and big: "BTREE_PAGE_SIZE < 4 + 10 * N + kv_size es"
    and len: "length old \<le> 2 * BTREE_PAGE_SIZE"
  shows "\<exists>e. nodeSplit3 old = Some (Inl e)"
proof -
  have sz: "4 + 10 * N + kv_size es < 65536"
    using h by (simp add: holds_def)
  have nb: "nbytes old = Inr (of_nat (4 + 10 * N + kv_size es))"
    using holds_nbytes [OF h full] .
  have u: "unat (of_nat (4 + 10 * N + kv_size es) :: 16 word) = 4 + 10 * N + kv_size es"
    using sz by (rule w16)
  have "\<exists>e. nodeSplit2 (replicate (2 * BTREE_PAGE_SIZE) 0) (replicate BTREE_PAGE_SIZE 0) old
      = Some (Inl e)"
  proof (cases "2 \<le> N")
    case True
    then show ?thesis
      by (rule nodeSplit2_never_returns [OF h full _ big len])
  next
    case False
    then have "\<not> (2 :: 16 word) \<le> of_nat N"
      using w16_le [of 2 N] by simp
    then have "split2_guess old = Inl AssertionFailed"
      using holds_header(2) [OF h] by (simp add: split2_guess_def)
    then show ?thesis
      by (simp add: nodeSplit2_def)
  qed
  then show ?thesis
    using nb u big by (auto simp: nodeSplit3_def)
qed

subsection \<open>What a returned split contains\<close>

lemma nodeSplit2_Some_Inr:
  assumes "nodeSplit2 left right old = Some (Inr lr)"
  obtains nleft where "split2_build left right old nleft = Inr lr"
  using assms unfolding nodeSplit2_def
  by (auto split: sum.splits option.splits)

lemma nodeSplit2_returns:
  assumes r: "reads_as old bt es" and sz: "4 + 10 * length es + kv_size es < 65536"
    and run: "nodeSplit2 left right old = Some (Inr (l, rr))"
  obtains k where "k < length es"
    "tables l bt k (take k es)" "length l = length left"
    "tables rr bt (length es - k) (drop k es)" "length rr = length right"
    "4 + 10 * k + kv_size (take k es) \<le> length left \<longrightarrow> holds l bt k (take k es)"
proof -
  define N where "N = length es"
  from r have nk: "nkeys old = Inr (of_nat N)" and bt: "btype old = Inr bt"
    and rd: "slots old 0 es" and Nb: "N < 65536"
    by (simp_all add: reads_as_def N_def)
  obtain nl where "split2_build left right old nl = Inr (l, rr)"
    using nodeSplit2_Some_Inr [OF run] by blast
  then obtain n bt' left1 right1 rb where b: "nkeys old = Inr n" "nl < n" "btype old = Inr bt'"
    "setHeader left bt' nl = Inr left1" "setHeader right bt' (n - nl) = Inr right1"
    "nodeAppendRange left1 old 0 0 nl = Inr l"
    "nodeAppendRange right1 old 0 nl (n - nl) = Inr rr"
    by (rule split2_build_Inr)
  have n: "n = of_nat N" and bt': "bt' = bt"
    using b(1,3) nk bt by simp_all
  define k where "k = unat nl"
  have nl: "nl = of_nat k"
    by (simp add: k_def)
  have kN: "k < N"
    using b(2) Nb unfolding n k_def by (simp add: word_less_nat_alt w16)
  have ks: "kv_size es = kv_size (take k es) + kv_size (drop k es)"
    by (metis append_take_drop_id kv_size_append)
  have w: "(of_nat N - of_nat k :: 16 word) = of_nat (N - k)"
    using kN by simp
  have lk: "length (take k es) = k" "length (drop k es) = N - k"
    using kN by (simp_all add: N_def)
  \<comment> \<open>the left node\<close>
  have szl: "4 + 10 * k + kv_size (take k es) < 65536"
    using sz ks kN by (simp add: N_def)
  have t1: "tables left1 bt k []" and l1: "length left1 = length left"
    using setHeader_tables [OF b(4) [unfolded nl bt']] szl by simp_all
  have runl: "nodeAppendRange left1 old (of_nat (length ([] :: entry list))) 0
      (of_nat (length (take k es))) = Inr l"
    using b(6) unfolding nl lk by simp
  have tl: "tables l bt k ([] @ take k es)" "length l = length left1"
    using szl lk
    by (intro nodeAppendRange_tables [OF t1 slots_take [OF rd, of k] _ _ runl]; simp)+
  have hl: "holds l bt k (take k es)" if room: "4 + 10 * k + kv_size (take k es) \<le> length left"
  proof -
    have c1: "4 + 10 * k \<le> length left" "4 + 10 * k < 65536"
      using room szl by simp_all
    obtain b1 where b1: "setHeader left bt (of_nat k) = Inr b1" "length b1 = length left"
      "holds b1 bt k []"
      using setHeader_holds [OF c1] by blast
    have e1: "b1 = left1"
      using b1(1) b(4) unfolding nl bt' by simp
    have c2: "length ([] :: entry list) + length (take k es) \<le> k"
      "4 + 10 * k + kv_size [] + kv_size (take k es) \<le> length b1"
      "4 + 10 * k + kv_size [] + kv_size (take k es) < 65536"
      using room szl lk b1(2) by simp_all
    obtain b2 where b2: "nodeAppendRange b1 old (of_nat (length ([] :: entry list))) 0
         (of_nat (length (take k es))) = Inr b2" "holds b2 bt k ([] @ take k es)"
      using nodeAppendRange_holds [OF b1(3) slots_take [OF rd, of k] c2] by blast
    have "b2 = l"
      using b2(1) runl unfolding e1 by simp
    with b2(2) show ?thesis by simp
  qed
  \<comment> \<open>the right node\<close>
  have szr: "4 + 10 * (N - k) + kv_size (drop k es) < 65536"
    using sz ks kN by (simp add: N_def)
  have t2: "tables right1 bt (N - k) []" and l2: "length right1 = length right"
    using setHeader_tables [OF b(5) [unfolded n nl w bt']] szr by simp_all
  have runr: "nodeAppendRange right1 old (of_nat (length ([] :: entry list))) (of_nat k)
      (of_nat (length (drop k es))) = Inr rr"
    using b(7) unfolding n nl w lk by simp
  have tr: "tables rr bt (N - k) ([] @ drop k es)" "length rr = length right1"
    using szr lk
    by (intro nodeAppendRange_tables [OF t2 slots_drop [OF rd, of k] _ _ runr]; simp)+
  show ?thesis
    using kN tl tr l1 l2 hl by (intro that [of k]) (simp_all add: N_def)
qed

lemma nodeSplit2_kids:
  assumes r: "reads_as old bt es" and sz: "4 + 10 * length es + kv_size es < 65536"
    and run: "nodeSplit2 left right old = Some (Inr (l, rr))"
  shows "btype l = Inr bt \<and> btype rr = Inr bt \<and>
         (\<exists>a b. nkeys l = Inr a \<and> nkeys rr = Inr b \<and> a + b = of_nat (length es))"
proof -
  obtain k where k: "k < length es" "tables l bt k (take k es)"
    "tables rr bt (length es - k) (drop k es)"
    using nodeSplit2_returns [OF r sz run] by blast
  have "(of_nat k + of_nat (length es - k) :: 16 word) = of_nat (length es)"
    using k(1) by (simp flip: of_nat_add)
  then show ?thesis
    using tables_header [OF k(2)] tables_header [OF k(3)] by simp
qed

lemma header_take:
  assumes "4 \<le> L"
  shows "btype (take L node) = btype node" "nkeys (take L node) = nkeys node"
  using assms by (simp_all add: btype_def nkeys_def slice_def Uint16_def min_def)


lemma nodeSplit3_kids:
  assumes h: "holds old bt N es" and full: "length es = N"
    and two: "4 + 10 * N + kv_size es \<le> 2 * BTREE_PAGE_SIZE"
    and run: "nodeSplit3 old = Some (Inr (cnt, nodes))"
  shows "\<exists>ks. length ks = unat cnt \<and>
           (\<forall>i < unat cnt. btype (nodes ! i) = Inr bt \<and> nkeys (nodes ! i) = Inr (ks ! i)) \<and>
           sum_list ks = of_nat N"
proof -
  let ?L = "replicate (2 * BTREE_PAGE_SIZE) 0 :: BNode"
  let ?R = "replicate BTREE_PAGE_SIZE 0 :: BNode"
  have sz: "4 + 10 * length es + kv_size es < 65536"
    using two full by simp
  have ro: "reads_as old bt es"
    using h full by (rule holds_reads_as)
  define sz0 where "sz0 = 4 + 10 * N + kv_size es"
  have nb: "nbytes old = Inr (of_nat sz0)"
    unfolding sz0_def using holds_nbytes [OF h full] .
  have u: "unat (of_nat sz0 :: 16 word) = sz0"
    using two by (intro w16) (simp add: sz0_def)
  show ?thesis
  proof (cases "sz0 \<le> BTREE_PAGE_SIZE")
    case True
    then have "Some (andThen (slice old 0 BTREE_PAGE_SIZE) (\<lambda>old'. Inr (1, [old', [], []])))
        = Some (Inr (cnt, nodes))"
      using run by (simp add: nodeSplit3_def nb u)
    then have c: "cnt = 1" "nodes = [take BTREE_PAGE_SIZE old, [], []]"
      by (auto simp: slice_def andThen_Inr split: if_splits)
    have "btype (nodes ! 0) = Inr bt" "nkeys (nodes ! 0) = Inr (of_nat N)"
      using holds_header [OF h] by (simp_all add: c header_take)
    then show ?thesis
      by (intro exI [of _ "[of_nat N]"]) (simp add: c)
  next
    case False
    then have r2: "(case nodeSplit2 ?L ?R old of
               None \<Rightarrow> None
             | Some (Inl e) \<Rightarrow> Some (Inl e)
             | Some (Inr (left, right)) \<Rightarrow>
                 (case nbytes left of
                    Inl e \<Rightarrow> Some (Inl e)
                  | Inr lb \<Rightarrow>
                      if unat lb \<le> BTREE_PAGE_SIZE then
                        Some (andThen (slice left 0 BTREE_PAGE_SIZE) (\<lambda>left'.
                              Inr (2, [left', right, []])))
                      else
                        (case nodeSplit2 ?R ?R left of
                           None \<Rightarrow> None
                         | Some (Inl e) \<Rightarrow> Some (Inl e)
                         | Some (Inr (leftleft, middle)) \<Rightarrow> Some (
                             andThen (nbytes leftleft) (\<lambda>llb.
                             andThen (Assert (unat llb \<le> BTREE_PAGE_SIZE)) (\<lambda>_.
                             Inr (3, [leftleft, middle, right]))))))) = Some (Inr (cnt, nodes))"
      using run unfolding nodeSplit3_def nb by (simp add: u)
    then obtain left right where s1: "nodeSplit2 ?L ?R old = Some (Inr (left, right))"
      by (auto split: option.splits sum.splits)
    obtain k where k: "k < length es" "tables left bt k (take k es)" "length left = length ?L"
      "tables right bt (length es - k) (drop k es)"
      "4 + 10 * k + kv_size (take k es) \<le> length ?L \<longrightarrow> holds left bt k (take k es)"
      using nodeSplit2_returns [OF ro sz s1] by blast
    have "kv_size (take k es) \<le> kv_size es"
      by (rule kv_size_take_le)
    then have room: "4 + 10 * k + kv_size (take k es) \<le> length ?L"
      using two k(1) full by simp
    then have hl: "holds left bt k (take k es)"
      using k(5) by simp
    have lk: "length (take k es) = k"
      using k(1) by simp
    define sz1 where "sz1 = 4 + 10 * k + kv_size (take k es)"
    have nbl: "nbytes left = Inr (of_nat sz1)"
      unfolding sz1_def using holds_nbytes [OF hl lk] .
    have ul: "unat (of_nat sz1 :: 16 word) = sz1"
      using room by (intro w16) (simp add: sz1_def)
    have hr: "btype right = Inr bt" "nkeys right = Inr (of_nat (N - k))"
      using tables_header [OF k(4)] full by simp_all
    show ?thesis
    proof (cases "sz1 \<le> BTREE_PAGE_SIZE")
      case True
      then have "Some (andThen (slice left 0 BTREE_PAGE_SIZE) (\<lambda>left'.
            Inr (2, [left', right, []]))) = Some (Inr (cnt, nodes))"
        using r2 unfolding s1 by (simp add: nbl ul)
      then have c: "cnt = 2" "nodes = [take BTREE_PAGE_SIZE left, right, []]"
        by (auto simp: slice_def andThen_Inr split: if_splits)
      have "btype (nodes ! 0) = Inr bt" "nkeys (nodes ! 0) = Inr (of_nat k)"
        "btype (nodes ! 1) = Inr bt" "nkeys (nodes ! 1) = Inr (of_nat (N - k))"
        using tables_header [OF k(2)] hr by (simp_all add: c header_take)
      moreover have "(of_nat k + of_nat (N - k) :: 16 word) = of_nat N"
        using k(1) full by (simp flip: of_nat_add)
      moreover have "i < 2 \<longleftrightarrow> i = 0 \<or> i = 1" for i :: nat
        by auto
      ultimately show ?thesis
        by (intro exI [of _ "[of_nat k, of_nat (N - k)]"]) (auto simp: c)
    next
      case False
      then have r3: "(case nodeSplit2 ?R ?R left of
                           None \<Rightarrow> None
                         | Some (Inl e) \<Rightarrow> Some (Inl e)
                         | Some (Inr (leftleft, middle)) \<Rightarrow> Some (
                             andThen (nbytes leftleft) (\<lambda>llb.
                             andThen (Assert (unat llb \<le> BTREE_PAGE_SIZE)) (\<lambda>_.
                             Inr (3, [leftleft, middle, right]))))) = Some (Inr (cnt, nodes))"
        using r2 unfolding s1 by (simp add: nbl ul)
      then obtain leftleft middle where s2: "nodeSplit2 ?R ?R left = Some (Inr (leftleft, middle))"
        by (auto split: option.splits sum.splits)
      have "andThen (nbytes leftleft) (\<lambda>llb.
                   andThen (Assert (unat llb \<le> BTREE_PAGE_SIZE)) (\<lambda>_.
                     Inr (3, [leftleft, middle, right]))) = Inr (cnt, nodes)"
        using r3 unfolding s2 by simp
      then have c: "cnt = 3" "nodes = [leftleft, middle, right]"
        by (auto simp: andThen_Inr)
      have rl: "reads_as left bt (take k es)"
        using hl lk by (rule holds_reads_as)
      have szl: "4 + 10 * length (take k es) + kv_size (take k es) < 65536"
        using room unfolding lk by simp
      obtain j where j: "j < length (take k es)" "tables leftleft bt j (take j (take k es))"
        "tables middle bt (length (take k es) - j) (drop j (take k es))"
        using nodeSplit2_returns [OF rl szl s2] by blast
      have jk: "j < k"
        using j(1) lk by simp
      have "btype (nodes ! 0) = Inr bt" "nkeys (nodes ! 0) = Inr (of_nat j)"
        "btype (nodes ! 1) = Inr bt" "nkeys (nodes ! 1) = Inr (of_nat (k - j))"
        "btype (nodes ! 2) = Inr bt" "nkeys (nodes ! 2) = Inr (of_nat (N - k))"
        using tables_header [OF j(2)] tables_header [OF j(3)] hr unfolding lk
        by (simp_all add: c)
      moreover have "(of_nat j + (of_nat (k - j) + of_nat (N - k)) :: 16 word) = of_nat N"
        using k(1) jk full by (simp flip: of_nat_add)
      moreover have "i < 3 \<longleftrightarrow> i = 0 \<or> i = 1 \<or> i = 2" for i :: nat
        by auto
      ultimately show ?thesis
        by (intro exI [of _ "[of_nat j, of_nat (k - j), of_nat (N - k)]"]) (auto simp: c)
    qed
  qed
qed

section \<open>Appends into a buffer that is too short\<close>

lemma getVal_cut:
  assumes t: "tables b bt N es" and i: "i < length es" and e: "es ! i = (p, k, v)"
    and rk: "read_at b (4 + 10 * N + kv_size (take i es)) 2 = le16 (of_nat (length k))"
    and rv: "read_at b (4 + 10 * N + kv_size (take i es) + 2) 2 = le16 (of_nat (length v))"
    and fit: "4 + 10 * N + kv_size (take i es) + 4 + length k \<le> length b"
    and cut: "length b < 4 + 10 * N + kv_size (take i es) + 4 + length k + length v"
    and bd: "4 + 10 * N + kv_size (take i es) + 4 + length k + length v < 65536"
  shows "getVal b (of_nat i) = Inl OutOfRange"
proof -
  define P where "P = 4 + 10 * N + kv_size (take i es)"
  from t i have b: "i < 65536" "N < 65536" "i < N"
    by (simp_all add: tables_def)
  then have lt: "(of_nat i :: 16 word) < of_nat N"
    by (simp add: w16_less)
  have kp: "kvPos b (of_nat i) = Inr (of_nat P)"
    using tables_kvPos [OF t, of i] i by (simp add: P_def)
  have PL: "P + 4 + length k + length v < 65536" "P + 4 + length k \<le> length b"
    "length b < P + 4 + length k + length v"
    using bd fit cut by (simp_all add: P_def)
  have u: "unat (of_nat P :: 16 word) = P" "unat (of_nat P + 2 :: 16 word) = P + 2"
    "unat (of_nat P + 4 + of_nat (length k) :: 16 word) = P + 4 + length k"
    "unat (of_nat (length v) :: 16 word) = length v"
    using PL by (simp_all add: w16 w16_add_num w16_add_num_add)
  have s: "slice (drop (P + 4 + length k) b) 0 (length v) = Inl OutOfRange"
    using PL by (simp add: slice_def)
  show ?thesis
    using tables_header(2) [OF t] lt kp u Uint16_read [OF rk [folded P_def]]
      Uint16_read [OF rv [folded P_def]] PL(2) s
    by (simp add: getVal_def slice_from_def)
qed

lemma nodeAppendRange_none: "nodeAppendRange new old dst src 0 = Inr new"
  unfolding nodeAppendRange_def by (subst appendRange_loop.simps) simp


lemma leafInsert_cut:
  assumes nk: "nkeys old = Inr (of_nat (length es))"
    and rd: "slots old 0 es"
    and fit: "4 + 10 * Suc (length es) + kv_size es + 4 + length key \<le> length new"
    and cut: "length new < 4 + 10 * Suc (length es) + kv_size es + 4 + length key + length val"
    and bd: "4 + 10 * Suc (length es) + kv_size es + (4 + length key + length val) < 65536"
  obtains b where "leafInsert new old (of_nat (length es)) key val = Inr b"
    "length b = length new"
    "tables b BNODE_LEAF (Suc (length es)) (es @ [(0, key, val)])"
    "getVal b (of_nat (length es)) = Inl OutOfRange"
proof -
  define N where "N = Suc (length es)"
  define L where "L = length new"
  have c1: "4 + 10 * N \<le> length new" "4 + 10 * N < 65536"
    using fit bd by (simp_all add: N_def)
  obtain b1 where b1: "setHeader new BNODE_LEAF (of_nat N) = Inr b1" "length b1 = L"
    "holds b1 BNODE_LEAF N []"
    using setHeader_holds [OF c1, of BNODE_LEAF] unfolding L_def by blast
  have c2: "length ([] :: entry list) + length es \<le> N"
    "4 + 10 * N + kv_size [] + kv_size es \<le> length b1"
    "4 + 10 * N + kv_size [] + kv_size es < 65536"
    using fit bd b1(2) by (simp_all add: N_def L_def)
  obtain b2 where b2: "nodeAppendRange b1 old (of_nat (length ([] :: entry list))) 0
       (of_nat (length es)) = Inr b2"
    "length b2 = length b1" "holds b2 BNODE_LEAF N ([] @ es)"
    using nodeAppendRange_holds [OF b1(3) rd c2] by blast
  have h2: "holds b2 BNODE_LEAF N es"
    using b2(3) by simp
  have c3: "length es < N" "4 + 10 * N + kv_size es + 4 + length key \<le> length b2"
    "4 + 10 * N + kv_size es + (4 + length key + length val) < 65536"
    using fit bd b1(2) b2(2) by (simp_all add: N_def L_def)
  obtain b3 where b3: "nodeAppendKV b2 (of_nat (length es)) 0 key val = Inr b3"
    "length b3 = length b2"
    "read_at b3 (4 + 10 * N + kv_size es) 2 = le16 (of_nat (length key))"
    "read_at b3 (4 + 10 * N + kv_size es + 2) 2 = le16 (of_nat (length val))"
    using nodeAppendKV_unchecked [OF h2 c3, of 0] by blast
  have t3: "tables b3 BNODE_LEAF N (es @ [(0, key, val)])"
    using nodeAppendKV_tables [OF holds_tables [OF h2] c3(1,3) b3(1)] by simp
  have w: "(of_nat (length es) + 1 :: 16 word) = of_nat N"
    by (simp add: N_def)
  have r2: "nodeAppendRange b1 old 0 0 (of_nat (length es)) = Inr b2"
    using b2(1) by simp
  have run: "leafInsert new old (of_nat (length es)) key val = Inr b3"
    unfolding leafInsert_def nk andThen_simps w b1(1) r2 b3(1)
    by (simp add: nodeAppendRange_none)
  have lb: "length b3 = length new"
    using b3(2) b2(2) b1(2) by (simp add: L_def)
  have gv: "getVal b3 (of_nat (length es)) = Inl OutOfRange"
    using b3(3,4) fit cut bd lb
    by (intro getVal_cut [OF t3, where p = 0 and k = key and v = val]) (simp_all add: N_def)
  show ?thesis
    using run lb t3 gv by (intro that [of b3]) (simp_all add: N_def)
qed

lemma leafUpdate_cut:
  assumes nk: "nkeys old = Inr (of_nat (length es))"
    and rd: "slots old 0 es"
    and i: "Suc i = length es"
    and fit: "4 + 10 * length es + kv_size (take i es) + 4 + length key \<le> length new"
    and cut: "length new < 4 + 10 * length es + kv_size (take i es) + 4 + length key + length val"
    and bd: "4 + 10 * length es + kv_size (take i es) + (4 + length key + length val) < 65536"
  obtains b where "leafUpdate new old (of_nat i) key val = Inr b"
    "length b = length new"
    "tables b BNODE_LEAF (length es) (take i es @ [(0, key, val)])"
    "getVal b (of_nat i) = Inl OutOfRange"
proof -
  define N where "N = length es"
  define L where "L = length new"
  define xs where "xs = take i es"
  have lx: "length xs = i"
    using i by (simp add: xs_def)
  have c1: "4 + 10 * N \<le> length new" "4 + 10 * N < 65536"
    using fit bd by (simp_all add: N_def)
  obtain b1 where b1: "setHeader new BNODE_LEAF (of_nat N) = Inr b1" "length b1 = L"
    "holds b1 BNODE_LEAF N []"
    using setHeader_holds [OF c1, of BNODE_LEAF] unfolding L_def by blast
  have c2: "length ([] :: entry list) + length xs \<le> N"
    "4 + 10 * N + kv_size [] + kv_size xs \<le> length b1"
    "4 + 10 * N + kv_size [] + kv_size xs < 65536"
    using fit bd b1(2) i lx by (simp_all add: N_def L_def xs_def)
  obtain b2 where b2: "nodeAppendRange b1 old (of_nat (length ([] :: entry list))) 0
       (of_nat (length xs)) = Inr b2"
    "length b2 = length b1" "holds b2 BNODE_LEAF N ([] @ xs)"
    using nodeAppendRange_holds [OF b1(3) slots_take [OF rd, of i, folded xs_def] c2] by blast
  have h2: "holds b2 BNODE_LEAF N xs"
    using b2(3) by simp
  have c3: "length xs < N" "4 + 10 * N + kv_size xs + 4 + length key \<le> length b2"
    "4 + 10 * N + kv_size xs + (4 + length key + length val) < 65536"
    using fit bd b1(2) b2(2) i lx by (simp_all add: N_def L_def xs_def)
  obtain b3 where b3: "nodeAppendKV b2 (of_nat (length xs)) 0 key val = Inr b3"
    "length b3 = length b2"
    "read_at b3 (4 + 10 * N + kv_size xs) 2 = le16 (of_nat (length key))"
    "read_at b3 (4 + 10 * N + kv_size xs + 2) 2 = le16 (of_nat (length val))"
    using nodeAppendKV_unchecked [OF h2 c3, of 0] by blast
  have t3: "tables b3 BNODE_LEAF N (xs @ [(0, key, val)])"
    using nodeAppendKV_tables [OF holds_tables [OF h2] c3(1,3) b3(1)] by simp
  have w: "(of_nat (length es) - (of_nat i + 1) :: 16 word) = 0"
    using i [symmetric] by simp
  have r2: "nodeAppendRange b1 old 0 0 (of_nat i) = Inr b2"
    using b2(1) by (simp add: lx)
  have r3: "nodeAppendKV b2 (of_nat i) 0 key val = Inr b3"
    using b3(1) by (simp add: lx)
  have run: "leafUpdate new old (of_nat i) key val = Inr b3"
    unfolding leafUpdate_def nk andThen_simps b1(1) [unfolded N_def] r2 r3 w
    by (simp add: nodeAppendRange_none)
  have lb: "length b3 = length new"
    using b3(2) b2(2) b1(2) by (simp add: L_def)
  have tk: "take i (xs @ [(0, key, val)]) = xs" "(xs @ [(0, key, val)]) ! i = (0, key, val)"
    using lx nth_append_length [of xs "(0, key, val)" "[]"] by simp_all
  have gv: "getVal b3 (of_nat i) = Inl OutOfRange"
    using b3(3,4) fit cut bd lb lx
    by (intro getVal_cut [OF t3, where p = 0 and k = key and v = val])
       (simp_all add: N_def tk xs_def [symmetric])
  show ?thesis
    using run lb t3 gv by (intro that [of b3]) (simp_all add: N_def xs_def)
qed

text \<open>An append whose key does not fit: the key is cut by \<open>copy\<close>, and taking the slice
  for the value, which starts behind the end of the buffer, panics.\<close>

lemma nodeAppendKV_panics:
  assumes h: "holds node bt N es"
    and n: "length es < N"
    and fit: "4 + 10 * N + kv_size es + 4 \<le> length node"
    and cut: "length node < 4 + 10 * N + kv_size es + 4 + length k"
    and bd: "4 + 10 * N + kv_size es + 4 + length k < 65536"
  shows "nodeAppendKV node (of_nat (length es)) p k v = Inl OutOfRange"
proof -
  define i where "i = length es"
  define P where "P = 4 + 10 * N + kv_size es"
  define L where "L = length node"
  define b1 where "b1 = write_at node (4 + 8 * i) (le64 p)"
  define b2 where "b2 = write_at b1 P (le16 (of_nat (length k)))"
  define b3 where "b3 = write_at b2 (P + 2) (le16 (of_nat (length v)))"
  define b4 where "b4 = write_at b3 (P + 4) (take (L - (P + 4)) k)"
  have iN: "i < N" using n by (simp add: i_def)
  have PL: "P + 4 \<le> L" "L < P + 4 + length k" "P + 4 + length k < 65536"
    using fit cut bd by (simp_all add: P_def L_def)
  have P10: "4 + 10 * N \<le> P" by (simp add: P_def)
  have l1: "length b1 = L"
    using iN PL P10 by (simp add: b1_def L_def)
  have l2: "length b2 = L"
    using PL l1 by (simp add: b2_def)
  have l3: "length b3 = L"
    using PL l2 by (simp add: b3_def)
  have l4: "length b4 = L"
    using PL l3 by (simp add: b4_def)
  have h1: "holds b1 bt N es"
    unfolding b1_def using iN PL P10
    by (intro holds_write_free [OF h]) (simp_all add: i_def L_def)
  have b: "i < 65536" "N < 65536" "N < 6554"
    using iN PL P10 by simp_all
  have lt: "(of_nat i :: 16 word) < of_nat N"
    using b iN by (simp add: w16_less)
  have u1: "unat (4 + 8 * of_nat i :: 16 word) = 4 + 8 * i"
    using b iN w16 [of "4 + 8 * i"] by simp
  have s1: "setPtr node (of_nat i) p = Inr b1"
    using holds_header(2) [OF h] lt u1 iN PL P10
    by (simp add: setPtr_def PutUint64_at_ok b1_def L_def)
  have kp: "kvPos b1 (of_nat i) = Inr (of_nat P)"
    using holds_kvPos [OF h1, of i] by (simp add: i_def P_def)
  have u: "unat (of_nat P + 0 :: 16 word) = P" "unat (of_nat P + 2 :: 16 word) = P + 2"
    "unat (of_nat P + 4 :: 16 word) = P + 4"
    "unat (of_nat P + 4 + of_nat (length k) :: 16 word) = P + 4 + length k"
    using PL by (simp_all add: w16 w16_add_num w16_add_num_add)
  have s2: "PutUint16_at b1 P (of_nat (length k)) = Inr b2"
    using PL l1 by (simp add: PutUint16_at_ok b2_def)
  have s3: "PutUint16_at b2 (P + 2) (of_nat (length v)) = Inr b3"
    using PL l2 by (simp add: PutUint16_at_ok b3_def)
  have s4: "copy_at b3 (P + 4) k = Inr b4"
    using PL l3 by (simp add: copy_at_any b4_def)
  have s5: "copy_at b4 (P + 4 + length k) v = Inl OutOfRange"
    using PL l4 by (simp add: copy_at_def slice_from_def)
  show ?thesis
    unfolding nodeAppendKV_def i_def [symmetric]
    by (simp only: s1 andThen_simps kp u s2 s3 s4 s5)
qed

lemma es_one_facts: "kv_size es_one = 3006" "length es_one = 1"
  by (simp_all add: es_one_def rec_size_def ascii_def)

lemma leaf_one_holds: "holds leaf_one BNODE_LEAF 1 es_one"
proof -
  obtain node where n: "build_node (replicate BTREE_PAGE_SIZE 0) BNODE_LEAF es_one = Inr node"
    "holds node BNODE_LEAF (length es_one) es_one"
    by (rule build_node_holds [of es_one "replicate BTREE_PAGE_SIZE 0" BNODE_LEAF])
       (simp_all add: es_one_facts)
  then show ?thesis
    by (simp add: leaf_one_def es_one_facts)
qed

lemma es_upd_facts: "kv_size es_upd = 3013" "length es_upd = 2"
  "kv_size (take 1 es_upd) = 3006" "kv_size (take (Suc 0) es_upd) = 3006"
  by (simp_all add: es_upd_def rec_size_def ascii_def)

lemma leaf_upd_holds: "holds leaf_upd BNODE_LEAF 2 es_upd"
proof -
  obtain node where n: "build_node (replicate BTREE_PAGE_SIZE 0) BNODE_LEAF es_upd = Inr node"
    "holds node BNODE_LEAF (length es_upd) es_upd"
    by (rule build_node_holds [of es_upd "replicate BTREE_PAGE_SIZE 0" BNODE_LEAF])
       (simp_all add: es_upd_facts)
  then show ?thesis
    by (simp add: leaf_upd_def es_upd_facts)
qed

lemma leaf_k0_holds:
  "treeInsert list_store [] leaf3 (ascii ''k0'') (ascii ''v0'') = Some (Inr (leaf_k0, []))"
  "holds leaf_k0 BNODE_LEAF 4 es_k0"
proof -
  have nk: "nkeys leaf3 = Inr (of_nat (length es3))" and bt: "btype leaf3 = Inr BNODE_LEAF"
    using holds_header [OF leaf3_holds(1)] by (simp_all add: kv_size_es3)
  have rd: "slots leaf3 0 es3"
    using leaf3_holds(1) by (rule holds_slots)
  have g0: "getKey leaf3 0 = Inr (ascii ''k1'')"
    using holds_getKey [OF leaf3_holds(1), of 0] by (simp add: es3_def)
  have g1: "getKey leaf3 1 = Inr (ascii ''k2'')"
    using holds_getKey [OF leaf3_holds(1), of 1] by (simp add: es3_def)
  have c: "bytes_Compare (ascii ''k1'') (ascii ''k0'') = 1"
    "bytes_Compare (ascii ''k2'') (ascii ''k0'') = 1" "ascii ''k0'' \<noteq> ascii ''k1''"
    by (simp_all add: ascii_def)
  have l0: "lookup_loop leaf3 (ascii ''k0'') 0 0 = Inr (Fallthrough 0)"
    by (subst lookup_loop.simps) (simp add: g0 c)
  have "lookup_loop leaf3 (ascii ''k0'') 0 2 = Inr (Fallthrough 0)"
    by (subst lookup_loop.simps) (simp add: g1 c l0)
  then have lk: "nodeLookupLE leaf3 (ascii ''k0'') = Inr 0"
    using nk by (simp add: nodeLookupLE_def kv_size_es3)
  have t: "treeInsert list_store [] leaf3 (ascii ''k0'') (ascii ''v0'') =
      Some (andThen (leafInsert (replicate (2 * BTREE_PAGE_SIZE) 0) leaf3 1 (ascii ''k0'') (ascii ''v0''))
             (\<lambda>new'. Inr (new', [])))"
    by (subst treeInsert.simps) (simp add: lk bt g0 c)
  obtain b where b: "leafInsert (replicate (2 * BTREE_PAGE_SIZE) 0) leaf3 (of_nat 1)
       (ascii ''k0'') (ascii ''v0'') = Inr b"
    "holds b BNODE_LEAF (Suc (length es3)) (take 1 es3 @ (0, ascii ''k0'', ascii ''v0'') # drop 1 es3)"
    by (rule leafInsert_holds [OF nk rd, of 1 "ascii ''k0''" "ascii ''v0''"
          "replicate (2 * BTREE_PAGE_SIZE) 0"])
       (simp_all add: kv_size_es3 ascii_def)
  have e: "take 1 es3 @ (0, ascii ''k0'', ascii ''v0'') # drop 1 es3 = es_k0"
    by (simp add: es3_def es_k0_def)
  have r: "treeInsert list_store [] leaf3 (ascii ''k0'') (ascii ''v0'') = Some (Inr (b, []))"
    using t b(1) by simp
  then have "leaf_k0 = b"
    by (simp add: leaf_k0_def)
  with r b(2) show
    "treeInsert list_store [] leaf3 (ascii ''k0'') (ascii ''v0'') = Some (Inr (leaf_k0, []))"
    "holds leaf_k0 BNODE_LEAF 4 es_k0"
    unfolding e by (simp_all add: kv_size_es3)
qed

lemma es_k0_facts: "kv_size es_k0 = 32" "length es_k0 = 4"
  by (simp_all add: es_k0_def rec_size_def ascii_def)

lemma treeInsert_leaf_k0:
  "nodeLookupLE leaf_k0 (ascii ''k1'') = Inr 1"
  "treeInsert list_store [] leaf_k0 (ascii ''k1'') val =
     Some (andThen (leafInsert (replicate (2 * BTREE_PAGE_SIZE) 0) leaf_k0 2 (ascii ''k1'') val)
            (\<lambda>new'. Inr (new', [])))"
proof -
  have nk: "nkeys leaf_k0 = Inr 4" and bt: "btype leaf_k0 = Inr BNODE_LEAF"
    using holds_header [OF leaf_k0_holds(2)] by simp_all
  have g1: "getKey leaf_k0 1 = Inr (ascii ''k0'')"
    using holds_getKey [OF leaf_k0_holds(2), of 1] by (simp add: es_k0_def)
  have g2: "getKey leaf_k0 2 = Inr (ascii ''k2'')"
    using holds_getKey [OF leaf_k0_holds(2), of 2] by (simp add: es_k0_def)
  have c: "bytes_Compare (ascii ''k0'') (ascii ''k1'') = - 1"
    "bytes_Compare (ascii ''k2'') (ascii ''k1'') = 1" "ascii ''k1'' \<noteq> ascii ''k0''"
    by (simp_all add: ascii_def)
  have "\<not> (2 :: 16 word) \<le> 1"
    by (simp add: word_le_nat_alt)
  then have l0: "lookup_loop leaf_k0 (ascii ''k1'') 2 1 = Inr (Fallthrough 1)"
    by (subst lookup_loop.simps) simp
  have l1: "lookup_loop leaf_k0 (ascii ''k1'') 2 3 = Inr (Fallthrough 1)"
    by (subst lookup_loop.simps) (simp add: g2 c l0)
  have "lookup_loop leaf_k0 (ascii ''k1'') 0 3 = Inr (Fallthrough 1)"
    by (subst lookup_loop.simps) (simp add: g1 c l1)
  then show lk: "nodeLookupLE leaf_k0 (ascii ''k1'') = Inr 1"
    using nk by (simp add: nodeLookupLE_def)
  show "treeInsert list_store [] leaf_k0 (ascii ''k1'') val =
     Some (andThen (leafInsert (replicate (2 * BTREE_PAGE_SIZE) 0) leaf_k0 2 (ascii ''k1'') val)
            (\<lambda>new'. Inr (new', [])))"
    by (subst treeInsert.simps) (simp add: lk bt g1 c)
qed

lemma es_wide_facts: "kv_size es_wide = 4016" "length es_wide = 4"
  "kv_size (take 3 es_wide) = 3012" "length (take 3 es_wide) = 3"
  by (simp_all add: es_wide_def rec_size_def)

lemma inner_wide_holds: "holds inner_wide BNODE_NODE 4 es_wide"
proof -
  obtain node where n: "build_node (replicate BTREE_PAGE_SIZE 0) BNODE_NODE es_wide = Inr node"
    "holds node BNODE_NODE (length es_wide) es_wide"
    by (rule build_node_holds [of es_wide "replicate BTREE_PAGE_SIZE 0" BNODE_NODE])
       (simp_all add: es_wide_facts)
  then show ?thesis
    by (simp add: inner_wide_def es_wide_facts)
qed

lemma kid_wide_holds:
  "holds (kid_wide c) BNODE_LEAF 1 [(0, replicate BTREE_MAX_KEY_SIZE c, ascii ''v'')]"
proof -
  define es :: "entry list" where "es = [(0, replicate BTREE_MAX_KEY_SIZE c, ascii ''v'')]"
  have f: "kv_size es = 1005" "length es = 1"
    by (simp_all add: es_def rec_size_def ascii_def)
  obtain node where n: "build_node (replicate BTREE_PAGE_SIZE 0) BNODE_LEAF es = Inr node"
    "holds node BNODE_LEAF (length es) es"
    by (rule build_node_holds [of es "replicate BTREE_PAGE_SIZE 0" BNODE_LEAF])
       (simp_all add: f)
  then show ?thesis
    by (simp add: kid_wide_def f es_def [symmetric])
qed

section \<open>Claims\<close>

text \<open>
  C1 fails on the code in its first part. For a well-formed node in a buffer of at most two
  pages: if the node is larger than a page, \<open>nodeSplit3\<close> ends in a panic, so it returns
  neither two nor three nodes; if it fits a page (and the buffer has a page's length at
  least), \<open>nodeSplit3\<close> returns the one node, cut to the page size, with its entries.
\<close>

theorem nodeSplit3_outcomes:
  assumes h: "holds old bt N es" and full: "length es = N"
    and len: "length old \<le> 2 * BTREE_PAGE_SIZE"
  shows "(BTREE_PAGE_SIZE < 4 + 10 * N + kv_size es \<longrightarrow> (\<exists>e. nodeSplit3 old = Some (Inl e))) \<and>
         (4 + 10 * N + kv_size es \<le> BTREE_PAGE_SIZE \<and> BTREE_PAGE_SIZE \<le> length old \<longrightarrow>
            nodeSplit3 old = Some (Inr (1, [take BTREE_PAGE_SIZE old, [], []])) \<and>
            length (take BTREE_PAGE_SIZE old) = BTREE_PAGE_SIZE \<and>
            reads_as (take BTREE_PAGE_SIZE old) bt es)"
proof (intro conjI impI)
  assume "BTREE_PAGE_SIZE < 4 + 10 * N + kv_size es"
  then show "\<exists>e. nodeSplit3 old = Some (Inl e)"
    by (rule nodeSplit3_oversized [OF h full _ len])
next
  assume a: "4 + 10 * N + kv_size es \<le> BTREE_PAGE_SIZE \<and> BTREE_PAGE_SIZE \<le> length old"
  then show "nodeSplit3 old = Some (Inr (1, [take BTREE_PAGE_SIZE old, [], []]))"
    by (intro nodeSplit3_fits [OF h full]) simp_all
  show "length (take BTREE_PAGE_SIZE old) = BTREE_PAGE_SIZE"
    using a by simp
  have "holds (take BTREE_PAGE_SIZE old) bt N es"
    using a by (intro holds_take [OF h]) simp
  then show "reads_as (take BTREE_PAGE_SIZE old) bt es"
    using full by (rule holds_reads_as)
qed

theorem nodeSplit3_outcomes_witness:
  "holds big2 BNODE_LEAF 2 es_big \<and> length es_big = 2 \<and> length big2 \<le> 2 * BTREE_PAGE_SIZE \<and>
   BTREE_PAGE_SIZE < 4 + 10 * 2 + kv_size es_big \<and>
   (\<exists>e. nodeSplit3 big2 = Some (Inl e)) \<and>
   holds leaf3 BNODE_LEAF 3 es3 \<and> length es3 = 3 \<and> length leaf3 \<le> 2 * BTREE_PAGE_SIZE \<and>
   4 + 10 * 3 + kv_size es3 \<le> BTREE_PAGE_SIZE \<and> BTREE_PAGE_SIZE \<le> length leaf3 \<and>
   nodeSplit3 leaf3 = Some (Inr (1, [take BTREE_PAGE_SIZE leaf3, [], []])) \<and>
   length (take BTREE_PAGE_SIZE leaf3) = BTREE_PAGE_SIZE \<and>
   reads_as (take BTREE_PAGE_SIZE leaf3) BNODE_LEAF es3"
proof -
  have a: "length es_big = 2" "length big2 \<le> 2 * BTREE_PAGE_SIZE"
    "BTREE_PAGE_SIZE < 4 + 10 * 2 + kv_size es_big"
    by (simp_all add: es_big_facts big2_holds)
  have b: "length es3 = 3" "length leaf3 \<le> 2 * BTREE_PAGE_SIZE"
    "4 + 10 * 3 + kv_size es3 \<le> BTREE_PAGE_SIZE" "BTREE_PAGE_SIZE \<le> length leaf3"
    by (simp_all add: kv_size_es3 leaf3_holds)
  show ?thesis
    using nodeSplit3_outcomes [OF big2_holds(1) a(1,2)]
      nodeSplit3_outcomes [OF leaf3_holds(1) b(1,2)] big2_holds(1) leaf3_holds(1) a b
    by simp
qed

text \<open>
  C2 fails on the code. For every well-formed node of at least two keys that is larger than
  a page and lies in a buffer of at most two pages, whatever the sizes of its records,
  \<open>nodeSplit2\<close> ends in a panic: it never returns a split.
\<close>

theorem nodeSplit2_panics:
  assumes "holds old bt N es" and "length es = N" and "2 \<le> N"
    and "BTREE_PAGE_SIZE < 4 + 10 * N + kv_size es"
    and "length old \<le> 2 * BTREE_PAGE_SIZE"
  shows "\<exists>e. nodeSplit2 left right old = Some (Inl e)"
  using assms by (rule nodeSplit2_never_returns)

theorem nodeSplit2_panics_witness:
  "holds big2 BNODE_LEAF 2 es_big \<and> length es_big = 2 \<and>
   BTREE_PAGE_SIZE < 4 + 10 * 2 + kv_size es_big \<and> length big2 \<le> 2 * BTREE_PAGE_SIZE \<and>
   (\<exists>e. nodeSplit2 (replicate (2 * BTREE_PAGE_SIZE) 0) (replicate BTREE_PAGE_SIZE 0) big2
          = Some (Inl e))"
proof -
  have a: "length es_big = 2" "(2 :: nat) \<le> 2" "BTREE_PAGE_SIZE < 4 + 10 * 2 + kv_size es_big"
    "length big2 \<le> 2 * BTREE_PAGE_SIZE"
    by (simp_all add: es_big_facts big2_holds)
  show ?thesis
    using nodeSplit2_panics [OF big2_holds(1) a, of "replicate (2 * BTREE_PAGE_SIZE) 0"
        "replicate BTREE_PAGE_SIZE 0"] big2_holds(1) a
    by simp
qed

text \<open>
  C3 fails on the code. In the two-key leaf \<open>[k1, k2]\<close> the target \<open>k0\<close> is below both keys,
  so no index has a key at most the target and the answer should be 0. The search starts
  with \<open>lo = 0\<close>, \<open>hi = 1\<close>, finds \<open>key(0) > target\<close> at \<open>mid = 0\<close> and leaves the loop by
  \<open>break\<close> with \<open>hi\<close> still 1, which passes \<open>hi < nkeys\<close>: the result is 1.
\<close>

theorem nodeLookupLE_below_first_of_two:
  "nkeys leaf2 = Inr 2 \<and>
   getKey leaf2 0 = Inr (ascii ''k1'') \<and> getKey leaf2 1 = Inr (ascii ''k2'') \<and>
   bytes_Compare (ascii ''k1'') (ascii ''k0'') = 1 \<and>
   bytes_Compare (ascii ''k2'') (ascii ''k0'') = 1 \<and>
   nodeLookupLE leaf2 (ascii ''k0'') = Inr 1"
proof -
  have nk: "nkeys leaf2 = Inr 2"
    using holds_header(2) [OF leaf2_holds(1)] by simp
  have g0: "getKey leaf2 0 = Inr (ascii ''k1'')"
    using holds_getKey [OF leaf2_holds(1), of 0] by (simp add: es2_def)
  have g1: "getKey leaf2 1 = Inr (ascii ''k2'')"
    using holds_getKey [OF leaf2_holds(1), of 1] by (simp add: es2_def)
  have c: "bytes_Compare (ascii ''k1'') (ascii ''k0'') = 1"
    "bytes_Compare (ascii ''k2'') (ascii ''k0'') = 1"
    by (simp_all add: ascii_def)
  have "lookup_loop leaf2 (ascii ''k0'') 0 1 = Inr (Fallthrough 1)"
    by (subst lookup_loop.simps) (simp add: g0 c)
  then have "nodeLookupLE leaf2 (ascii ''k0'') = Inr 1"
    by (simp add: nodeLookupLE_def nk)
  with nk g0 g1 c show ?thesis by simp
qed

text \<open>
  C4, as amended. \<open>leafInsert\<close> into a buffer \<open>new\<close> with room for the result (the header,
  both tables for one key more, the old records and the new one, below 65536 bytes) builds
  a leaf with one key more: the entries before \<open>idx\<close> are those of the old node, entry
  \<open>idx\<close> is the new pair (with pointer 0), and the old entries from \<open>idx\<close> on follow,
  shifted by one. If the old keys ascend strictly and the new key lies strictly between its
  neighbours, so do the new ones. A two-page buffer has the room whenever the old node fits
  a page and the pair is within the ceilings of 1000 and 3000 bytes.
\<close>

theorem leafInsert_shifts_entries:
  assumes old: "reads_as old BNODE_LEAF es"
    and idx: "unat idx \<le> length es"
    and room: "4 + 10 * Suc (length es) + kv_size es + (4 + length key + length val) \<le> length new"
      "4 + 10 * Suc (length es) + kv_size es + (4 + length key + length val) < 65536"
  shows "\<exists>new'. leafInsert new old idx key val = Inr new' \<and>
      nkeys new' = Inr (of_nat (length es) + 1) \<and>
      reads_as new' BNODE_LEAF (take (unat idx) es @ (0, key, val) # drop (unat idx) es) \<and>
      (ascending es \<and> (0 < unat idx \<longrightarrow> key_lt (fst (snd (es ! (unat idx - 1)))) key) \<and>
       (unat idx < length es \<longrightarrow> key_lt key (fst (snd (es ! unat idx))))
       \<longrightarrow> ascending (take (unat idx) es @ (0, key, val) # drop (unat idx) es))"
proof -
  from old have nk: "nkeys old = Inr (of_nat (length es))" and rd: "slots old 0 es"
    by (simp_all add: reads_as_def)
  obtain b where b: "leafInsert new old (of_nat (unat idx)) key val = Inr b"
    "holds b BNODE_LEAF (Suc (length es)) (take (unat idx) es @ (0, key, val) # drop (unat idx) es)"
    using leafInsert_holds [OF nk rd idx room] by blast
  have len: "length (take (unat idx) es @ (0, key, val) # drop (unat idx) es) = Suc (length es)"
    using idx by simp
  have "reads_as b BNODE_LEAF (take (unat idx) es @ (0, key, val) # drop (unat idx) es)"
    using holds_reads_as [OF b(2) len] .
  moreover have "nkeys b = Inr (of_nat (length es) + 1)"
    using holds_header(2) [OF b(2)] by (simp add: add.commute)
  moreover have "ascending (take (unat idx) es @ (0, key, val) # drop (unat idx) es)"
    if "ascending es" "0 < unat idx \<longrightarrow> key_lt (fst (snd (es ! (unat idx - 1)))) key"
      "unat idx < length es \<longrightarrow> key_lt key (fst (snd (es ! unat idx)))"
    using sorted_wrt_insert_between [of "map (\<lambda>e. fst (snd e)) es" "unat idx" key] that idx
    by (simp add: ascending_def take_map drop_map)
  ultimately show ?thesis
    using b(1) by auto
qed

theorem leafInsert_shifts_entries_witness:
  "reads_as leaf3 BNODE_LEAF es3 \<and> unat (3 :: 16 word) \<le> length es3 \<and>
   (\<exists>new'. leafInsert (replicate BTREE_PAGE_SIZE 0) leaf3 3 (ascii ''k4'') (ascii ''v4'') = Inr new' \<and>
      nkeys new' = Inr 4 \<and>
      reads_as new' BNODE_LEAF (es3 @ [(0, ascii ''k4'', ascii ''v4'')]) \<and>
      ascending es3 \<and> key_lt (ascii ''k3'') (ascii ''k4'') \<and>
      ascending (es3 @ [(0, ascii ''k4'', ascii ''v4'')]))"
proof -
  have r: "reads_as leaf3 BNODE_LEAF es3"
    using holds_reads_as [OF leaf3_holds(1)] by (simp add: kv_size_es3)
  have i: "unat (3 :: 16 word) \<le> length es3"
    by (simp add: kv_size_es3)
  have a: "ascending es3" "key_lt (ascii ''k3'') (ascii ''k4'')"
    by (simp_all add: ascending_def es3_def key_lt_def ascii_def)
  have t: "take (unat (3 :: 16 word)) es3 @ (0, ascii ''k4'', ascii ''v4'') # drop (unat (3 :: 16 word)) es3
      = es3 @ [(0, ascii ''k4'', ascii ''v4'')]"
    by (simp add: kv_size_es3)
  have n: "es3 ! (unat (3 :: 16 word) - 1) = (0, ascii ''k3'', ascii ''v3'')"
    by (simp add: es3_def)
  show ?thesis
    using leafInsert_shifts_entries [OF r i, of "ascii ''k4''" "ascii ''v4''"
        "replicate BTREE_PAGE_SIZE 0"] r i a
    unfolding t n by (simp add: kv_size_es3 ascii_def)
qed

text \<open>
  C4 as stated fails: it bounds the pair but not the buffer. The one-page leaf holding
  \<open>k1\<close> with a 3000-byte value, the pair of \<open>k2\<close> and a 3000-byte value, and a one-page
  buffer \<open>new\<close> are within its conditions. \<open>leafInsert\<close> at index 1 returns without a
  panic: \<open>copy\<close> stores the 1060 bytes of the value that fit, the offset table counts all
  3000, so the result has two keys and \<open>nbytes() = 6036\<close> in 4096 bytes, and reading the
  value of slot 1 goes out of range. Entry 1 is not the new pair.
\<close>

theorem leafInsert_overflows_buffer:
  "nkeys leaf_one = Inr 1 \<and> nbytes leaf_one = Inr 3020 \<and>
   length (ascii ''k2'') \<le> BTREE_MAX_KEY_SIZE \<and>
   length (replicate BTREE_MAX_VAL_SIZE (98 :: byte)) \<le> BTREE_MAX_VAL_SIZE \<and>
   (\<exists>new'. leafInsert (replicate BTREE_PAGE_SIZE 0) leaf_one 1 (ascii ''k2'')
              (replicate BTREE_MAX_VAL_SIZE 98) = Inr new' \<and>
      length new' = BTREE_PAGE_SIZE \<and> nkeys new' = Inr 2 \<and> nbytes new' = Inr 6036 \<and>
      getVal new' 1 = Inl OutOfRange)"
proof -
  have nk: "nkeys leaf_one = Inr (of_nat (length es_one))"
    using holds_header(2) [OF leaf_one_holds] by (simp add: es_one_facts)
  have rd: "slots leaf_one 0 es_one"
    using leaf_one_holds by (rule holds_slots)
  have nb: "nbytes leaf_one = Inr 3020"
    using holds_nbytes [OF leaf_one_holds] by (simp add: es_one_facts)
  obtain b where b: "leafInsert (replicate BTREE_PAGE_SIZE 0) leaf_one (of_nat (length es_one))
       (ascii ''k2'') (replicate BTREE_MAX_VAL_SIZE 98) = Inr b"
    "length b = length (replicate BTREE_PAGE_SIZE (0 :: byte))"
    "tables b BNODE_LEAF (Suc (length es_one))
       (es_one @ [(0, ascii ''k2'', replicate BTREE_MAX_VAL_SIZE 98)])"
    "getVal b (of_nat (length es_one)) = Inl OutOfRange"
    by (rule leafInsert_cut [OF nk rd, of "ascii ''k2''" "replicate BTREE_PAGE_SIZE 0"
          "replicate BTREE_MAX_VAL_SIZE 98"])
       (simp_all add: es_one_facts ascii_def)
  have "nbytes b = Inr (of_nat (4 + 10 * Suc (length es_one)
      + kv_size (es_one @ [(0, ascii ''k2'', replicate BTREE_MAX_VAL_SIZE 98)])))"
    by (rule tables_nbytes [OF b(3)]) simp
  then have nb2: "nbytes b = Inr 6036"
    by (simp add: es_one_facts rec_size_def ascii_def)
  have nk2: "nkeys b = Inr 2"
    using tables_header(2) [OF b(3)] by (simp add: es_one_facts)
  show ?thesis
    using nk nb b(1,2,4) nb2 nk2 by (simp add: es_one_facts ascii_def)
qed

text \<open>
  C5, as amended. A node built left to right by \<open>nodeAppendKV\<close> in a buffer that has room
  for the header, both tables and every record (and stays below 65536 bytes) reports
  \<open>nbytes()\<close> as exactly that size, which is within the buffer, and \<open>getKey\<close> and
  \<open>getVal\<close> return the bytes that were appended, slot by slot.
\<close>

theorem build_node_round_trip:
  assumes fit: "4 + 10 * length es + kv_size es \<le> length buf"
    "4 + 10 * length es + kv_size es < 65536"
  shows "\<exists>node nb. build_node buf bt es = Inr node \<and> length node = length buf \<and>
      nbytes node = Inr nb \<and> unat nb = 4 + 10 * length es + kv_size es \<and>
      unat nb \<le> length node \<and>
      (\<forall>i < length es. getKey node (of_nat i) = Inr (fst (snd (es ! i))) \<and>
                        getVal node (of_nat i) = Inr (snd (snd (es ! i))))"
proof -
  obtain node where n: "build_node buf bt es = Inr node" "length node = length buf"
    "holds node bt (length es) es"
    using build_node_holds [OF fit] by blast
  have "nbytes node = Inr (of_nat (4 + 10 * length es + kv_size es))"
    using holds_nbytes [OF n(3)] by simp
  moreover have "unat (of_nat (4 + 10 * length es + kv_size es) :: 16 word)
      = 4 + 10 * length es + kv_size es"
    using fit(2) by (rule w16)
  ultimately show ?thesis
    using n fit holds_getKey [OF n(3)] holds_getVal [OF n(3)] by auto
qed

theorem build_node_round_trip_witness:
  "4 + 10 * length es3 + kv_size es3 \<le> length (replicate BTREE_PAGE_SIZE (0 :: byte)) \<and>
   (\<exists>node. build_node (replicate BTREE_PAGE_SIZE 0) BNODE_LEAF es3 = Inr node \<and>
      nbytes node = Inr 58 \<and>
      getKey node 0 = Inr (ascii ''k1'') \<and> getVal node 0 = Inr (ascii ''v1'') \<and>
      getKey node 1 = Inr (ascii ''k2'') \<and> getVal node 1 = Inr (ascii ''v2'') \<and>
      getKey node 2 = Inr (ascii ''k3'') \<and> getVal node 2 = Inr (ascii ''v3''))"
proof -
  have fit: "4 + 10 * length es3 + kv_size es3 \<le> length (replicate BTREE_PAGE_SIZE (0 :: byte))"
    "4 + 10 * length es3 + kv_size es3 < 65536"
    by (simp_all add: kv_size_es3)
  obtain node nb where n: "build_node (replicate BTREE_PAGE_SIZE 0) BNODE_LEAF es3 = Inr node"
    "nbytes node = Inr nb" "unat nb = 4 + 10 * length es3 + kv_size es3"
    "\<forall>i < length es3. getKey node (of_nat i) = Inr (fst (snd (es3 ! i))) \<and>
                        getVal node (of_nat i) = Inr (snd (snd (es3 ! i)))"
    using build_node_round_trip [OF fit, of BNODE_LEAF] by blast
  from n(3) have "unat nb = unat (58 :: 16 word)"
    by (simp add: kv_size_es3)
  then have "nb = 58"
    by (simp only: word_unat_eq_iff)
  moreover from n(4) [rule_format, of 0] n(4) [rule_format, of 1] n(4) [rule_format, of 2]
  have "getKey node (of_nat 0) = Inr (ascii ''k1'')" "getVal node (of_nat 0) = Inr (ascii ''v1'')"
    "getKey node (of_nat 1) = Inr (ascii ''k2'')" "getVal node (of_nat 1) = Inr (ascii ''v2'')"
    "getKey node (of_nat 2) = Inr (ascii ''k3'')" "getVal node (of_nat 2) = Inr (ascii ''v3'')"
    by (simp_all add: es3_def)
  ultimately show ?thesis
    using fit(1) n(1,2) by simp
qed

text \<open>
  C5 as stated fails: the ceilings on keys and values do not keep a node within its
  buffer. \<open>copy\<close> stores only the bytes that fit, \<open>nodeAppendKV\<close> counts all of them, and
  two records with 3000-byte values, appended to a one-page buffer without a panic, give
  \<open>nbytes() = 6036\<close> in a buffer of 4096 bytes.
\<close>

theorem build_node_overflows_buffer:
  "\<exists>node nb. build_node (replicate BTREE_PAGE_SIZE 0) BNODE_LEAF es_big = Inr node \<and>
      length node = BTREE_PAGE_SIZE \<and> nbytes node = Inr nb \<and> unat nb = 6036 \<and>
      \<not> unat nb \<le> length node"
proof -
  define buf :: BNode where "buf = replicate BTREE_PAGE_SIZE 0"
  define e0 :: entry where "e0 = (0, ascii ''k1'', replicate BTREE_MAX_VAL_SIZE 97)"
  have lb: "length buf = 4096" by (simp add: buf_def)
  obtain b1 where b1: "setHeader buf BNODE_LEAF (of_nat 2) = Inr b1" "length b1 = length buf"
    "holds b1 BNODE_LEAF 2 []"
    using setHeader_holds [of 2 buf BNODE_LEAF] lb by auto
  obtain b2 where b2: "nodeAppendKV b1 (of_nat (length ([] :: entry list))) 0 (ascii ''k1'')
       (replicate BTREE_MAX_VAL_SIZE 97) = Inr b2"
    "length b2 = length b1" "holds b2 BNODE_LEAF 2 ([] @ [e0])"
    unfolding e0_def
    using nodeAppendKV_holds [OF b1(3), of "ascii ''k1''" "replicate BTREE_MAX_VAL_SIZE 97" 0] lb b1(2)
    by (auto simp: ascii_def)
  have h2: "holds b2 BNODE_LEAF 2 [e0]"
    using b2(3) by simp
  have k: "kv_size [e0] = 3006" "length [e0] = 1" "rec_size e0 = 3006"
    by (simp_all add: e0_def rec_size_def ascii_def)
  obtain b3 where b3: "nodeAppendKV b2 (of_nat (length [e0])) 0 (ascii ''k2'')
       (replicate BTREE_MAX_VAL_SIZE 98) = Inr b3"
    "length b3 = length b2" "holds b3 BNODE_LEAF 2 [e0]"
    "getOffset b3 (of_nat (Suc (length [e0])))
       = Inr (of_nat (kv_size [e0] + (4 + length (ascii ''k2'') + length (replicate BTREE_MAX_VAL_SIZE (98 :: byte)))))"
    using nodeAppendKV_unchecked [OF h2, of "ascii ''k2''" "replicate BTREE_MAX_VAL_SIZE 98" 0]
      lb b1(2) b2(2) k
    by (auto simp: ascii_def)
  have go: "getOffset b3 2 = Inr 6012"
    using b3(4) by (simp add: k ascii_def)
  have run: "build_node buf BNODE_LEAF es_big = Inr b3"
    using b1(1) b2(1) b3(1) by (simp add: build_node_def es_big_def k)
  have nb: "nbytes b3 = Inr 6036"
    using holds_header(2) [OF b3(3)] go by (simp add: nbytes_def kvPos_def)
  show ?thesis
    using run nb lb b1(2) b2(2) b3(2) by (simp add: buf_def)
qed

text \<open>
  C6, as amended. \<open>leafUpdate\<close> with the key of slot \<open>idx\<close>, into a buffer \<open>new\<close> with room
  for the result (the header, both tables and every record with the new value in place,
  below 65536 bytes), builds a leaf with the key count of the old node in which every key is
  unchanged, the value of slot \<open>idx\<close> is the new one, and every other value is unchanged.
\<close>

theorem leafUpdate_replaces_value:
  assumes old: "reads_as old BNODE_LEAF es"
    and idx: "unat idx < length es"
    and key: "key = fst (snd (es ! unat idx))"
    and room: "4 + 10 * length es + kv_size (es[unat idx := (0, key, val)]) \<le> length new"
      "4 + 10 * length es + kv_size (es[unat idx := (0, key, val)]) < 65536"
  shows "\<exists>new'. leafUpdate new old idx key val = Inr new' \<and>
      btype new' = Inr BNODE_LEAF \<and> nkeys new' = nkeys old \<and>
      (\<forall>j < length es.
         getKey new' (of_nat j) = getKey old (of_nat j) \<and>
         getVal new' (of_nat j) = (if j = unat idx then Inr val else getVal old (of_nat j)))"
proof -
  from old have nk: "nkeys old = Inr (of_nat (length es))" and rd: "slots old 0 es"
    by (simp_all add: reads_as_def)
  have fit: "4 + 10 * length es + kv_size (take (unat idx) es) + (4 + length key + length val)
                + kv_size (drop (Suc (unat idx)) es) \<le> length new"
     "4 + 10 * length es + kv_size (take (unat idx) es) + (4 + length key + length val)
                + kv_size (drop (Suc (unat idx)) es) < 65536"
    using room idx by (simp_all add: kv_size_update rec_size_def)
  obtain b where b: "leafUpdate new old (of_nat (unat idx)) key val = Inr b"
    "holds b BNODE_LEAF (length es) (es[unat idx := (0, key, val)])"
    using leafUpdate_holds [OF nk rd idx fit] by blast
  have "getKey b (of_nat j) = getKey old (of_nat j) \<and>
        getVal b (of_nat j) = (if j = unat idx then Inr val else getVal old (of_nat j))"
    if j: "j < length es" for j
    using holds_getKey [OF b(2), of j] holds_getVal [OF b(2), of j] rd j key
    by (auto simp: slots_def nth_list_update)
  then show ?thesis
    using b(1) holds_header [OF b(2)] nk by auto
qed

theorem leafUpdate_replaces_value_witness:
  "reads_as leaf3 BNODE_LEAF es3 \<and> unat (1 :: 16 word) < length es3 \<and>
   ascii ''k2'' = fst (snd (es3 ! unat (1 :: 16 word))) \<and>
   (\<exists>new'. leafUpdate (replicate BTREE_PAGE_SIZE 0) leaf3 1 (ascii ''k2'') (ascii ''v2n'') = Inr new' \<and>
      btype new' = Inr BNODE_LEAF \<and> nkeys new' = nkeys leaf3 \<and>
      getKey new' 0 = getKey leaf3 0 \<and> getVal new' 0 = getVal leaf3 0 \<and>
      getKey new' 1 = getKey leaf3 1 \<and> getVal new' 1 = Inr (ascii ''v2n'') \<and>
      getKey new' 2 = getKey leaf3 2 \<and> getVal new' 2 = getVal leaf3 2)"
proof -
  have r: "reads_as leaf3 BNODE_LEAF es3"
    using holds_reads_as [OF leaf3_holds(1)] by (simp add: kv_size_es3)
  have i: "unat (1 :: 16 word) < length es3"
    by (simp add: kv_size_es3)
  have k: "ascii ''k2'' = fst (snd (es3 ! unat (1 :: 16 word)))"
    by (simp add: es3_def)
  have room: "4 + 10 * length es3 + kv_size (es3[unat (1 :: 16 word) := (0, ascii ''k2'', ascii ''v2n'')])
       \<le> length (replicate BTREE_PAGE_SIZE (0 :: byte))"
     "4 + 10 * length es3 + kv_size (es3[unat (1 :: 16 word) := (0, ascii ''k2'', ascii ''v2n'')])
       < 65536"
    by (simp_all add: es3_def rec_size_def ascii_def)
  obtain new' where n: "leafUpdate (replicate BTREE_PAGE_SIZE 0) leaf3 1 (ascii ''k2'') (ascii ''v2n'') = Inr new'"
    "btype new' = Inr BNODE_LEAF" "nkeys new' = nkeys leaf3"
    "\<forall>j < length es3. getKey new' (of_nat j) = getKey leaf3 (of_nat j) \<and>
         getVal new' (of_nat j) = (if j = unat (1 :: 16 word) then Inr (ascii ''v2n'') else getVal leaf3 (of_nat j))"
    using leafUpdate_replaces_value [OF r i k room] by blast
  from n(4) [rule_format, of 0] n(4) [rule_format, of 1] n(4) [rule_format, of 2]
  have "getKey new' (of_nat 0) = getKey leaf3 (of_nat 0)" "getVal new' (of_nat 0) = getVal leaf3 (of_nat 0)"
    "getKey new' (of_nat 1) = getKey leaf3 (of_nat 1)" "getVal new' (of_nat 1) = Inr (ascii ''v2n'')"
    "getKey new' (of_nat 2) = getKey leaf3 (of_nat 2)" "getVal new' (of_nat 2) = getVal leaf3 (of_nat 2)"
    by (simp_all add: kv_size_es3)
  then show ?thesis
    using r i k n(1,2,3) by simp
qed

text \<open>
  C6 as stated fails: it bounds neither the buffer nor the new value. In the one-page leaf
  holding \<open>k1\<close> with a 3000-byte value and \<open>k2\<close> with the value \<open>v\<close>, \<open>leafUpdate\<close> of
  slot 1 with the key \<open>k2\<close> and a 3000-byte value, into a one-page buffer, returns without
  a panic: the result has two keys and \<open>nbytes() = 6036\<close> in 4096 bytes, and reading the
  value of slot 1 goes out of range. The value of slot 1 is not the new one.
\<close>

theorem leafUpdate_overflows_buffer:
  "nkeys leaf_upd = Inr 2 \<and> nbytes leaf_upd = Inr 3037 \<and>
   getKey leaf_upd 1 = Inr (ascii ''k2'') \<and>
   (\<exists>new'. leafUpdate (replicate BTREE_PAGE_SIZE 0) leaf_upd 1 (ascii ''k2'')
              (replicate BTREE_MAX_VAL_SIZE 98) = Inr new' \<and>
      length new' = BTREE_PAGE_SIZE \<and> nkeys new' = Inr 2 \<and> nbytes new' = Inr 6036 \<and>
      getVal new' 1 = Inl OutOfRange)"
proof -
  have nk: "nkeys leaf_upd = Inr (of_nat (length es_upd))"
    using holds_header(2) [OF leaf_upd_holds] by (simp add: es_upd_facts)
  have rd: "slots leaf_upd 0 es_upd"
    using leaf_upd_holds by (rule holds_slots)
  have nb: "nbytes leaf_upd = Inr 3037"
    using holds_nbytes [OF leaf_upd_holds] by (simp add: es_upd_facts)
  have gk: "getKey leaf_upd 1 = Inr (ascii ''k2'')"
    using holds_getKey [OF leaf_upd_holds, of 1] by (simp add: es_upd_def)
  obtain b where b: "leafUpdate (replicate BTREE_PAGE_SIZE 0) leaf_upd (of_nat 1)
       (ascii ''k2'') (replicate BTREE_MAX_VAL_SIZE 98) = Inr b"
    "length b = length (replicate BTREE_PAGE_SIZE (0 :: byte))"
    "tables b BNODE_LEAF (length es_upd)
       (take 1 es_upd @ [(0, ascii ''k2'', replicate BTREE_MAX_VAL_SIZE 98)])"
    "getVal b (of_nat 1) = Inl OutOfRange"
    by (rule leafUpdate_cut [OF nk rd, of 1 "ascii ''k2''" "replicate BTREE_PAGE_SIZE 0"
          "replicate BTREE_MAX_VAL_SIZE 98"])
       (simp_all add: es_upd_facts ascii_def)
  have "nbytes b = Inr (of_nat (4 + 10 * length es_upd
      + kv_size (take 1 es_upd @ [(0, ascii ''k2'', replicate BTREE_MAX_VAL_SIZE 98)])))"
    by (rule tables_nbytes [OF b(3)]) (simp add: es_upd_facts)
  then have nb2: "nbytes b = Inr 6036"
    by (simp add: es_upd_facts rec_size_def ascii_def)
  have nk2: "nkeys b = Inr 2"
    using tables_header(2) [OF b(3)] by (simp add: es_upd_facts)
  show ?thesis
    using nk nb gk b(1,2,4) nb2 nk2 by (simp add: es_upd_facts)
qed

text \<open>
  C7, as amended. Let a non-empty leaf hold strictly ascending keys. A key that is present
  at slot \<open>j\<close> is found by \<open>nodeLookupLE\<close>, and \<open>treeInsert\<close> is then \<open>leafUpdate\<close> at \<open>j\<close>.
  Inserting the key once per value of a list, each time into the node returned before,
  where the leaf with each of the values in slot \<open>j\<close> fits the two-page buffer of
  \<open>treeInsert\<close>, always returns a leaf with the key count of the first one, whose slot \<open>j\<close>
  holds the last value and whose other slots are unchanged. (A leaf that fits a page, with
  values of at most 3000 bytes, meets that condition.) A key that is absent makes
  \<open>treeInsert\<close> the call of \<open>leafInsert\<close> at \<open>idx + 1\<close>, for the index \<open>idx\<close> that
  \<open>nodeLookupLE\<close> returns.
\<close>

theorem treeInsert_leaf_routes:
  assumes leaf: "reads_as node BNODE_LEAF es" and ne: "es \<noteq> []" and asc: "ascending es"
  shows "(\<forall>j val. j < length es \<longrightarrow>
            nodeLookupLE node (fst (snd (es ! j))) = Inr (of_nat j) \<and>
            treeInsert tree s node (fst (snd (es ! j))) val =
              Some (andThen (leafUpdate (replicate (2 * BTREE_PAGE_SIZE) 0) node (of_nat j)
                               (fst (snd (es ! j))) val)
                     (\<lambda>new'. Inr (new', s)))) \<and>
         (\<forall>j vals. j < length es \<and> vals \<noteq> [] \<and>
            (\<forall>val \<in> set vals.
               4 + 10 * length es + kv_size (es[j := (0, fst (snd (es ! j)), val)])
                 \<le> 2 * BTREE_PAGE_SIZE) \<longrightarrow>
            (\<exists>new'. treeInsert_vals tree s node (fst (snd (es ! j))) vals = Some (Inr (new', s)) \<and>
               nkeys new' = nkeys node \<and>
               reads_as new' BNODE_LEAF (es[j := (0, fst (snd (es ! j)), last vals)]))) \<and>
         (\<forall>key val. key \<notin> (\<lambda>e. fst (snd e)) ` set es \<longrightarrow>
            (\<exists>idx. nodeLookupLE node key = Inr idx \<and>
               treeInsert tree s node key val =
                 Some (andThen (leafInsert (replicate (2 * BTREE_PAGE_SIZE) 0) node (idx + 1) key val)
                        (\<lambda>new'. Inr (new', s)))))"
proof (intro conjI allI impI)
  fix j val assume j: "j < length es"
  from leaf have rd: "slots node 0 es" and bt: "btype node = Inr BNODE_LEAF"
    by (simp_all add: reads_as_def)
  show lk: "nodeLookupLE node (fst (snd (es ! j))) = Inr (of_nat j)"
    by (rule nodeLookupLE_finds [OF leaf asc j])
  have gk: "getKey node (of_nat j) = Inr (fst (snd (es ! j)))"
    using rd j by (rule slots_getKey)
  show "treeInsert tree s node (fst (snd (es ! j))) val =
      Some (andThen (leafUpdate (replicate (2 * BTREE_PAGE_SIZE) 0) node (of_nat j)
                       (fst (snd (es ! j))) val)
             (\<lambda>new'. Inr (new', s)))"
    by (subst treeInsert.simps) (simp add: lk bt gk)
next
  fix j and vals :: "byte list list"
  assume a: "j < length es \<and> vals \<noteq> [] \<and>
            (\<forall>val \<in> set vals.
               4 + 10 * length es + kv_size (es[j := (0, fst (snd (es ! j)), val)])
                 \<le> 2 * BTREE_PAGE_SIZE)"
  then have j: "j < length es" by simp
  have r0: "reads_as node BNODE_LEAF (es[j := (fst (es ! j), fst (snd (es ! j)), snd (snd (es ! j)))])"
    using leaf by simp
  obtain b where b: "treeInsert_vals tree s node (fst (snd (es ! j))) vals = Some (Inr (b, s))"
    "reads_as b BNODE_LEAF (es[j := (0, fst (snd (es ! j)), last vals)])"
    using treeInsert_vals_same_key [OF j asc r0, of vals tree s] a by blast
  have "nkeys b = nkeys node"
    using b(2) leaf by (simp add: reads_as_def)
  with b show "\<exists>new'. treeInsert_vals tree s node (fst (snd (es ! j))) vals = Some (Inr (new', s)) \<and>
               nkeys new' = nkeys node \<and>
               reads_as new' BNODE_LEAF (es[j := (0, fst (snd (es ! j)), last vals)])"
    by blast
next
  fix key val assume "key \<notin> (\<lambda>e. fst (snd e)) ` set es"
  then show "\<exists>idx. nodeLookupLE node key = Inr idx \<and>
               treeInsert tree s node key val =
                 Some (andThen (leafInsert (replicate (2 * BTREE_PAGE_SIZE) 0) node (idx + 1) key val)
                        (\<lambda>new'. Inr (new', s)))"
    by (rule treeInsert_leaf_absent [OF leaf ne])
qed

theorem treeInsert_leaf_routes_witness:
  "reads_as leaf3 BNODE_LEAF es3 \<and> es3 \<noteq> [] \<and> ascending es3 \<and>
   nodeLookupLE leaf3 (ascii ''k2'') = Inr 1 \<and>
   treeInsert list_store [] leaf3 (ascii ''k2'') (ascii ''v2n'') =
     Some (andThen (leafUpdate (replicate (2 * BTREE_PAGE_SIZE) 0) leaf3 1 (ascii ''k2'') (ascii ''v2n''))
            (\<lambda>new'. Inr (new', []))) \<and>
   (\<exists>new'. treeInsert_vals list_store [] leaf3 (ascii ''k2'') [ascii ''v2n'', ascii ''v2m'']
              = Some (Inr (new', [])) \<and>
      nkeys new' = nkeys leaf3 \<and>
      reads_as new' BNODE_LEAF (es3[1 := (0, ascii ''k2'', ascii ''v2m'')])) \<and>
   (\<exists>idx. nodeLookupLE leaf3 (ascii ''k4'') = Inr idx \<and>
      treeInsert list_store [] leaf3 (ascii ''k4'') (ascii ''v4'') =
        Some (andThen (leafInsert (replicate (2 * BTREE_PAGE_SIZE) 0) leaf3 (idx + 1)
                         (ascii ''k4'') (ascii ''v4''))
               (\<lambda>new'. Inr (new', []))))"
proof -
  have r: "reads_as leaf3 BNODE_LEAF es3"
    using holds_reads_as [OF leaf3_holds(1)] by (simp add: kv_size_es3)
  have ne: "es3 \<noteq> []"
    by (simp add: es3_def)
  have asc: "ascending es3"
    by (simp add: ascending_def es3_def key_lt_def ascii_def)
  note th = treeInsert_leaf_routes [OF r ne asc, of list_store "[]"]
  have k2: "fst (snd (es3 ! 1)) = ascii ''k2''" "fst (snd (es3 ! Suc 0)) = ascii ''k2''"
    by (simp_all add: es3_def)
  have a: "nodeLookupLE leaf3 (ascii ''k2'') = Inr 1 \<and>
     treeInsert list_store [] leaf3 (ascii ''k2'') (ascii ''v2n'') =
     Some (andThen (leafUpdate (replicate (2 * BTREE_PAGE_SIZE) 0) leaf3 1 (ascii ''k2'') (ascii ''v2n''))
            (\<lambda>new'. Inr (new', [])))"
    using th [THEN conjunct1, rule_format, of 1 "ascii ''v2n''"]
    by (simp add: k2 kv_size_es3)
  have b: "\<exists>new'. treeInsert_vals list_store [] leaf3 (ascii ''k2'') [ascii ''v2n'', ascii ''v2m'']
              = Some (Inr (new', [])) \<and>
      nkeys new' = nkeys leaf3 \<and>
      reads_as new' BNODE_LEAF (es3[1 := (0, ascii ''k2'', ascii ''v2m'')])"
    using th [THEN conjunct2, THEN conjunct1, rule_format, of 1 "[ascii ''v2n'', ascii ''v2m'']"]
    by (simp add: k2 kv_size_es3 ascii_def es3_def rec_size_def)
  have c: "\<exists>idx. nodeLookupLE leaf3 (ascii ''k4'') = Inr idx \<and>
      treeInsert list_store [] leaf3 (ascii ''k4'') (ascii ''v4'') =
        Some (andThen (leafInsert (replicate (2 * BTREE_PAGE_SIZE) 0) leaf3 (idx + 1)
                         (ascii ''k4'') (ascii ''v4''))
               (\<lambda>new'. Inr (new', [])))"
    using th [THEN conjunct2, THEN conjunct2, rule_format, of "ascii ''k4''" "ascii ''v4''"]
    by (simp add: es3_def ascii_def)
  show ?thesis
    using r ne asc a b c by simp
qed

text \<open>
  C7 as stated fails, in two ways. First, it asks nothing of the order of the keys.
  Inserting \<open>k0\<close> into the test leaf \<open>[k1, k2, k3]\<close> makes \<open>nodeLookupLE\<close> return 0 (no
  key is at most \<open>k0\<close>) and \<open>treeInsert\<close> insert at \<open>idx + 1 = 1\<close>: the leaf returned holds
  \<open>[k1, k0, k2, k3]\<close>. In that leaf the key \<open>k1\<close> is present, but the binary search
  answers 1, slot 1 holds \<open>k0\<close>, and \<open>treeInsert\<close> goes to \<open>leafInsert\<close> at 2: the result has
  five keys, not four. Second, it asks nothing of the size of the value. Inserting the
  present key \<open>k2\<close> with a value of 9000 bytes into the leaf \<open>[k1, k2]\<close> goes to
  \<open>leafUpdate\<close>, which returns a leaf of two keys whose value in slot 1 cannot be read: it
  does not fit the two-page buffer.
\<close>

theorem treeInsert_leaf_misroutes:
  "treeInsert list_store [] leaf3 (ascii ''k0'') (ascii ''v0'') = Some (Inr (leaf_k0, [])) \<and>
   btype leaf_k0 = Inr BNODE_LEAF \<and> nkeys leaf_k0 = Inr 4 \<and>
   getKey leaf_k0 0 = Inr (ascii ''k1'') \<and> getKey leaf_k0 1 = Inr (ascii ''k0'') \<and>
   nodeLookupLE leaf_k0 (ascii ''k1'') = Inr 1 \<and>
   treeInsert list_store [] leaf_k0 (ascii ''k1'') (ascii ''v1n'') =
     Some (andThen (leafInsert (replicate (2 * BTREE_PAGE_SIZE) 0) leaf_k0 2 (ascii ''k1'')
                      (ascii ''v1n''))
            (\<lambda>new'. Inr (new', []))) \<and>
   (\<exists>new'. treeInsert list_store [] leaf_k0 (ascii ''k1'') (ascii ''v1n'') = Some (Inr (new', [])) \<and>
      nkeys new' = Inr 5) \<and>
   getKey leaf2 1 = Inr (ascii ''k2'') \<and>
   (\<exists>new'. treeInsert list_store [] leaf2 (ascii ''k2'') (replicate 9000 118)
              = Some (Inr (new', [])) \<and>
      nkeys new' = Inr 2 \<and> getVal new' 1 = Inl OutOfRange)"
proof -
  note h = leaf_k0_holds(2)
  have hd: "btype leaf_k0 = Inr BNODE_LEAF" "nkeys leaf_k0 = Inr 4"
    using holds_header [OF h] by simp_all
  have g: "getKey leaf_k0 0 = Inr (ascii ''k1'')" "getKey leaf_k0 1 = Inr (ascii ''k0'')"
    using holds_getKey [OF h, of 0] holds_getKey [OF h, of 1] by (simp_all add: es_k0_def)
  have nk: "nkeys leaf_k0 = Inr (of_nat (length es_k0))"
    using hd(2) by (simp add: es_k0_facts)
  obtain b where b: "leafInsert (replicate (2 * BTREE_PAGE_SIZE) 0) leaf_k0 (of_nat 2)
       (ascii ''k1'') (ascii ''v1n'') = Inr b"
    "holds b BNODE_LEAF (Suc (length es_k0))
       (take 2 es_k0 @ (0, ascii ''k1'', ascii ''v1n'') # drop 2 es_k0)"
    by (rule leafInsert_holds [OF nk holds_slots [OF h], of 2 "ascii ''k1''" "ascii ''v1n''"
          "replicate (2 * BTREE_PAGE_SIZE) 0"])
       (simp_all add: es_k0_facts ascii_def)
  have nb: "nkeys b = Inr 5"
    using holds_header(2) [OF b(2)] by (simp add: es_k0_facts)
  have a: "\<exists>new'. treeInsert list_store [] leaf_k0 (ascii ''k1'') (ascii ''v1n'')
        = Some (Inr (new', [])) \<and> nkeys new' = Inr 5"
    using treeInsert_leaf_k0(2) [of "ascii ''v1n''"] b(1) nb by simp
  \<comment> \<open>a value that the two-page buffer cannot hold\<close>
  have nk2: "nkeys leaf2 = Inr (of_nat (length es2))" and bt2: "btype leaf2 = Inr BNODE_LEAF"
    using holds_header [OF leaf2_holds(1)] by (simp_all add: es2_facts)
  have rd2: "slots leaf2 0 es2"
    using leaf2_holds(1) by (rule holds_slots)
  have r2: "reads_as leaf2 BNODE_LEAF es2"
    using holds_reads_as [OF leaf2_holds(1)] by (simp add: es2_facts)
  have asc: "ascending es2"
    by (simp add: ascending_def es2_def key_lt_def ascii_def)
  have lk: "nodeLookupLE leaf2 (ascii ''k2'') = Inr 1"
    using nodeLookupLE_finds [OF r2 asc, of 1] by (simp add: es2_def)
  have gk: "getKey leaf2 1 = Inr (ascii ''k2'')"
    using holds_getKey [OF leaf2_holds(1), of 1] by (simp add: es2_def)
  have t: "treeInsert list_store [] leaf2 (ascii ''k2'') (replicate 9000 118) =
      Some (andThen (leafUpdate (replicate (2 * BTREE_PAGE_SIZE) 0) leaf2 1 (ascii ''k2'')
                       (replicate 9000 118))
             (\<lambda>new'. Inr (new', [])))"
    by (subst treeInsert.simps) (simp add: lk bt2 gk)
  obtain c where c: "leafUpdate (replicate (2 * BTREE_PAGE_SIZE) 0) leaf2 (of_nat 1)
       (ascii ''k2'') (replicate 9000 118) = Inr c"
    "tables c BNODE_LEAF (length es2) (take 1 es2 @ [(0, ascii ''k2'', replicate 9000 118)])"
    "getVal c (of_nat 1) = Inl OutOfRange"
    by (rule leafUpdate_cut [OF nk2 rd2, of 1 "ascii ''k2''" "replicate (2 * BTREE_PAGE_SIZE) 0"
          "replicate 9000 118"])
       (simp_all add: es2_def rec_size_def ascii_def)
  have nc: "nkeys c = Inr 2"
    using tables_header(2) [OF c(2)] by (simp add: es2_facts)
  have d: "\<exists>new'. treeInsert list_store [] leaf2 (ascii ''k2'') (replicate 9000 118)
              = Some (Inr (new', [])) \<and>
      nkeys new' = Inr 2 \<and> getVal new' 1 = Inl OutOfRange"
    using t c(1,3) nc by simp
  show ?thesis
    using leaf_k0_holds(1) hd g treeInsert_leaf_k0(1)
      treeInsert_leaf_k0(2) [of "ascii ''v1n''"] a gk d
    by simp
qed

text \<open>
  C8, as amended. For an internal node \<open>old\<close>, a slot \<open>idx\<close> below its key count, kids that
  each have a first key, and a buffer \<open>new\<close> with room for the result (the header, both
  tables and every record of the new node, below 65536 bytes), \<open>nodeReplaceKidN\<close> builds
  an internal node of \<open>nkeys(old) + len(kids) - 1\<close> keys: the entries of \<open>old\<close> before \<open>idx\<close>,
  then one entry per kid (the page number \<open>tree.new\<close> returned for it, its first key, an
  empty value), then the entries of \<open>old\<close> after \<open>idx\<close>. The page store ends in the state
  that the allocations leave. Nothing here depends on there being at most three kids.
\<close>

theorem nodeReplaceKidN_links_kids:
  assumes old: "reads_as old BNODE_NODE es"
    and idx: "unat idx < length es"
    and kids: "\<forall>kid \<in> set kids. \<exists>k. getKey kid 0 = Inr k"
    and room:
      "4 + 10 * (length es + length kids - 1) + kv_size (take (unat idx) es)
         + kv_size (fst (kid_links tree s kids)) + kv_size (drop (Suc (unat idx)) es) \<le> length new"
      "4 + 10 * (length es + length kids - 1) + kv_size (take (unat idx) es)
         + kv_size (fst (kid_links tree s kids)) + kv_size (drop (Suc (unat idx)) es) < 65536"
  shows "\<exists>new'. nodeReplaceKidN tree s new old idx kids = Inr (new', snd (kid_links tree s kids)) \<and>
      nkeys new' = Inr (of_nat (length es) + of_nat (length kids) - 1) \<and>
      reads_as new' BNODE_NODE
        (take (unat idx) es @ fst (kid_links tree s kids) @ drop (Suc (unat idx)) es)"
proof -
  from old have nk: "nkeys old = Inr (of_nat (length es))" and rd: "slots old 0 es"
    by (simp_all add: reads_as_def)
  obtain b where b: "nodeReplaceKidN tree s new old (of_nat (unat idx)) kids
                     = Inr (b, snd (kid_links tree s kids))"
    "holds b BNODE_NODE (length es + length kids - 1)
       (take (unat idx) es @ fst (kid_links tree s kids) @ drop (Suc (unat idx)) es)"
    using nodeReplaceKidN_holds [OF nk rd idx kids room] by blast
  have len: "length (take (unat idx) es @ fst (kid_links tree s kids) @ drop (Suc (unat idx)) es)
      = length es + length kids - 1"
    using idx by simp
  have w: "(of_nat (length es) + of_nat (length kids) - 1 :: 16 word)
      = of_nat (length es + length kids - 1)"
    using idx by simp
  have "reads_as b BNODE_NODE
        (take (unat idx) es @ fst (kid_links tree s kids) @ drop (Suc (unat idx)) es)"
    using holds_reads_as [OF b(2) len] .
  moreover have "nkeys b = Inr (of_nat (length es) + of_nat (length kids) - 1)"
    unfolding w using holds_header(2) [OF b(2)] .
  ultimately show ?thesis
    using b(1) by auto
qed

theorem nodeReplaceKidN_links_kids_witness:
  "reads_as inner2 BNODE_NODE es_inner \<and> unat (0 :: 16 word) < length es_inner \<and>
   (\<exists>k. getKey leaf2 0 = Inr k) \<and> (\<exists>k. getKey leaf3 0 = Inr k) \<and>
   (\<exists>new'. nodeReplaceKidN list_store [] (replicate (2 * BTREE_PAGE_SIZE) 0) inner2 0 [leaf2, leaf3]
              = Inr (new', [leaf2, leaf3]) \<and>
      nkeys new' = Inr 3 \<and>
      reads_as new' BNODE_NODE [(1, ascii ''k1'', []), (2, ascii ''k1'', []), (12, ascii ''k5'', [])])"
proof -
  have r: "reads_as inner2 BNODE_NODE es_inner"
    using holds_reads_as [OF inner2_holds] by (simp add: es_inner_facts)
  have i: "unat (0 :: 16 word) < length es_inner"
    by (simp add: es_inner_facts)
  have g: "\<exists>k. getKey leaf2 0 = Inr k" "\<exists>k. getKey leaf3 0 = Inr k"
    using holds_getKey [OF leaf2_holds(1), of 0] holds_getKey [OF leaf3_holds(1), of 0]
    by (simp_all add: es2_facts kv_size_es3)
  then have kids: "\<forall>kid \<in> set [leaf2, leaf3]. \<exists>k. getKey kid 0 = Inr k"
    by simp
  have room: "4 + 10 * (length es_inner + length [leaf2, leaf3] - 1) + kv_size (take (unat (0 :: 16 word)) es_inner)
         + kv_size (fst (kid_links list_store [] [leaf2, leaf3]))
         + kv_size (drop (Suc (unat (0 :: 16 word))) es_inner)
       \<le> length (replicate (2 * BTREE_PAGE_SIZE) (0 :: byte))"
     "4 + 10 * (length es_inner + length [leaf2, leaf3] - 1) + kv_size (take (unat (0 :: 16 word)) es_inner)
         + kv_size (fst (kid_links list_store [] [leaf2, leaf3]))
         + kv_size (drop (Suc (unat (0 :: 16 word))) es_inner) < 65536"
    unfolding kid_links_example by (simp_all add: es_inner_def rec_size_def ascii_def)
  show ?thesis
    using nodeReplaceKidN_links_kids [OF r i kids room] r i g
    unfolding kid_links_example by (simp add: es_inner_def)
qed

text \<open>
  C8 as stated fails: it asks nothing of the buffer. For the one-page internal node of four
  1000-byte keys, slot 3, three kids whose first keys have 1000 bytes, and a one-page buffer
  \<open>new\<close>, the new node of six keys would take 6088 bytes. The three entries before slot 3
  and the link of the first kid fill the buffer up to byte 4080; the link of the second kid
  gets its two length fields, its key is cut at the end of the buffer, and the slice for
  its (empty) value starts at byte 5084: \<open>nodeReplaceKidN\<close> panics and builds no node.
\<close>

theorem nodeReplaceKidN_overflows_buffer:
  "nkeys inner_wide = Inr 4 \<and> nbytes inner_wide = Inr 4060 \<and>
   getKey (kid_wide 100) 0 = Inr (replicate BTREE_MAX_KEY_SIZE 100) \<and>
   getKey (kid_wide 101) 0 = Inr (replicate BTREE_MAX_KEY_SIZE 101) \<and>
   getKey (kid_wide 102) 0 = Inr (replicate BTREE_MAX_KEY_SIZE 102) \<and>
   nodeReplaceKidN list_store [] (replicate BTREE_PAGE_SIZE 0) inner_wide 3
     [kid_wide 100, kid_wide 101, kid_wide 102] = Inl OutOfRange"
proof -
  define new :: BNode where "new = replicate BTREE_PAGE_SIZE 0"
  have ln: "length new = 4096"
    by (simp add: new_def)
  have nk: "nkeys inner_wide = Inr 4"
    using holds_header(2) [OF inner_wide_holds] by simp
  have nb: "nbytes inner_wide = Inr 4060"
    using holds_nbytes [OF inner_wide_holds] by (simp add: es_wide_facts)
  have rd: "slots inner_wide 0 es_wide"
    using inner_wide_holds by (rule holds_slots)
  have gk: "getKey (kid_wide c) 0 = Inr (replicate BTREE_MAX_KEY_SIZE c)" for c
    using holds_getKey [OF kid_wide_holds, of 0 c] by simp
  obtain b1 where b1: "setHeader new BNODE_NODE (of_nat 6) = Inr b1" "length b1 = length new"
    "holds b1 BNODE_NODE 6 []"
    using setHeader_holds [of 6 new BNODE_NODE] ln by auto
  obtain b2 where b2: "nodeAppendRange b1 inner_wide (of_nat (length ([] :: entry list))) 0
       (of_nat (length (take 3 es_wide))) = Inr b2"
    "length b2 = length b1" "holds b2 BNODE_NODE 6 ([] @ take 3 es_wide)"
    by (rule nodeAppendRange_holds [OF b1(3) slots_take [OF rd, of 3]])
       (simp_all add: es_wide_facts b1(2) ln)
  have h2: "holds b2 BNODE_NODE 6 (take 3 es_wide)"
    using b2(3) by simp
  obtain b3 where b3: "nodeAppendKV b2 (of_nat (length (take 3 es_wide))) 1
       (replicate BTREE_MAX_KEY_SIZE 100) [] = Inr b3"
    "length b3 = length b2"
    "holds b3 BNODE_NODE 6 (take 3 es_wide @ [(1, replicate BTREE_MAX_KEY_SIZE 100, [])])"
    by (rule nodeAppendKV_holds [OF h2, of "replicate BTREE_MAX_KEY_SIZE 100" "[]" 1])
       (simp_all add: es_wide_facts b2(2) b1(2) ln)
  define xs where "xs = take 3 es_wide @ [(1, replicate BTREE_MAX_KEY_SIZE 100, [])]"
  have l3: "length xs = 4" "kv_size xs = 4016"
    by (simp_all add: xs_def es_wide_facts rec_size_def)
  have h3: "holds b3 BNODE_NODE 6 xs"
    using b3(3) by (simp add: xs_def)
  have p4: "nodeAppendKV b3 (of_nat (length xs)) 2 (replicate BTREE_MAX_KEY_SIZE 101) []
      = Inl OutOfRange"
    using l3 b3(2) b2(2) b1(2) ln by (intro nodeAppendKV_panics [OF h3]) simp_all
  have r1: "setHeader new BNODE_NODE 6 = Inr b1"
    using b1(1) by simp
  have r2: "nodeAppendRange b1 inner_wide 0 0 3 = Inr b2"
    using b2(1) by (simp add: es_wide_facts)
  have r3: "nodeAppendKV b2 3 1 (replicate BTREE_MAX_KEY_SIZE 100) [] = Inr b3"
    using b3(1) by (simp add: es_wide_facts)
  have r4: "nodeAppendKV b3 4 2 (replicate BTREE_MAX_KEY_SIZE 101) [] = Inl OutOfRange"
    using p4 unfolding l3 by simp
  have "nodeReplaceKidN list_store [] new inner_wide 3
     [kid_wide 100, kid_wide 101, kid_wide 102] = Inl OutOfRange"
    by (simp add: nodeReplaceKidN_def nk r1 r2 r3 r4 gk list_store_def)
  then show ?thesis
    using nk nb gk by (simp add: new_def)
qed

text \<open>
  C9. A leaf with no keys makes \<open>treeInsert\<close> panic: \<open>nodeLookupLE\<close> answers 0, and
  \<open>getKey(0)\<close> asserts \<open>0 < nkeys()\<close>. This holds for every key and value.
\<close>

theorem treeInsert_empty_leaf_panics:
  assumes "btype node = Inr BNODE_LEAF" and "nkeys node = Inr 0"
  shows "treeInsert tree s node key val = Some (Inl AssertionFailed)"
proof -
  have "nodeLookupLE node key = Inr 0"
    using assms by (simp add: nodeLookupLE_def)
  moreover have "getKey node 0 = Inl AssertionFailed"
    using assms by (simp add: getKey_def)
  ultimately show ?thesis
    using assms by (subst treeInsert.simps) simp
qed

lemma empty_leaf_header: "btype empty_leaf = Inr BNODE_LEAF" "nkeys empty_leaf = Inr 0"
  by (rule header_read [of _ 2 0], simp add: empty_leaf_def read_at_def)+

theorem treeInsert_empty_leaf_panics_witness:
  "btype empty_leaf = Inr BNODE_LEAF \<and> nkeys empty_leaf = Inr 0 \<and>
   treeInsert list_store [] empty_leaf [107, 49] [118, 49] = Some (Inl AssertionFailed)"
  using treeInsert_empty_leaf_panics [OF empty_leaf_header, of list_store "[]" "[107, 49]" "[118, 49]"]
    empty_leaf_header by simp


end
